theory Spec2Isabelle
  imports Main "HOL-Library.Word" "HOL-Library.Signed_Division"
begin

unbundle bit_operations_syntax

section \<open>Memory, pointers and machine integers\<close>

text \<open>
  The allocator of \<^verbatim>\<open>mm.c\<close> works on raw memory. Pointers are byte addresses
  (\<^typ>\<open>int\<close>; pointer arithmetic never wraps in a defined C program), \<^verbatim>\<open>NULL\<close> is
  address 0, and \<^verbatim>\<open>(void *)-1\<close> is address \<open>-1\<close>. Memory maps every byte address to a
  byte. A \<^verbatim>\<open>word_t\<close> (\<^verbatim>\<open>int32_t\<close>) is read and written as four bytes, least
  significant first. \<^verbatim>\<open>size_t\<close> is a 64-bit word, so its arithmetic wraps modulo
  \<open>2 ^ 64\<close>.
\<close>

type_synonym addr = int
type_synonym word_t = "32 word"
type_synonym size_t = "64 word"
type_synonym memory = "addr \<Rightarrow> 8 word"

abbreviation NULL :: addr where
  "NULL \<equiv> 0"

definition load32 :: "memory \<Rightarrow> addr \<Rightarrow> word_t" where
  "load32 m a =
     ucast (m a) OR push_bit 8 (ucast (m (a + 1))) OR push_bit 16 (ucast (m (a + 2)))
       OR push_bit 24 (ucast (m (a + 3)))"

definition store32 :: "memory \<Rightarrow> addr \<Rightarrow> word_t \<Rightarrow> memory" where
  "store32 m a v =
     m(a := ucast v, a + 1 := ucast (drop_bit 8 v), a + 2 := ucast (drop_bit 16 v),
       a + 3 := ucast (drop_bit 24 v))"

text \<open>The C library's \<^verbatim>\<open>memcpy\<close> (on regions that do not overlap) and \<^verbatim>\<open>memset\<close>.\<close>

definition memcpy :: "memory \<Rightarrow> addr \<Rightarrow> addr \<Rightarrow> size_t \<Rightarrow> memory" where
  "memcpy m dst src n = (\<lambda>a. if dst \<le> a \<and> a < dst + uint n then m (src + (a - dst)) else m a)"

definition memset :: "memory \<Rightarrow> addr \<Rightarrow> 8 word \<Rightarrow> size_t \<Rightarrow> memory" where
  "memset m p c n = (\<lambda>a. if p \<le> a \<and> a < p + uint n then c else m a)"

section \<open>Allocator state\<close>

text \<open>
  The three globals of \<^verbatim>\<open>mm.c\<close> together with the memory they point into, and the
  two fields of the arena-growth primitive (\<^verbatim>\<open>memlib\<close>), which is not part of the
  source: the current end of the arena and the address it cannot grow beyond.
\<close>

record mm_state =
  mem :: memory
  heap_start :: addr
  bt_heap_last :: addr
  bt_heap_start :: addr
  mem_brk :: addr
  mem_max_addr :: addr

text \<open>
  Modelled from the spec: \<^verbatim>\<open>mem_sbrk\<close> of \<^verbatim>\<open>memlib\<close> is not in the source. The spec's
  \<^verbatim>\<open>grow_arena(n_bytes)\<close> extends the arena contiguously and returns the base address of
  the new region, or fails with a marker that is no valid address (the code tests for
  \<^verbatim>\<open>(void *)-1\<close>) when no more memory can be supplied.
\<close>

definition mem_sbrk :: "mm_state \<Rightarrow> size_t \<Rightarrow> addr \<times> mm_state" where
  "mem_sbrk s n =
     (if mem_max_addr s < mem_brk s + uint n then (-1, s)
      else (mem_brk s, s\<lparr>mem_brk := mem_brk s + uint n\<rparr>))"

text \<open>
  Modelled from the spec: the macro \<^verbatim>\<open>ALIGNMENT\<close> of \<^verbatim>\<open>mm.h\<close> is not in the source.
  The spec's alignment unit and minimum block size is 16 bytes; \<^verbatim>\<open>mm_init\<close> agrees,
  placing the footer of a sentinel of size \<^verbatim>\<open>ALIGNMENT\<close> three words after its header.
\<close>

definition ALIGNMENT :: size_t where
  "ALIGNMENT = 16"

section \<open>Boundary tag handling\<close>

datatype bt_flags = FREE | USED

fun flag_bits :: "bt_flags \<Rightarrow> word_t" where
  "flag_bits FREE = 0"
| "flag_bits USED = 1"

definition bt_size :: "memory \<Rightarrow> addr \<Rightarrow> word_t" where
  "bt_size m bt = load32 m bt AND NOT (flag_bits USED)"

definition bt_used :: "memory \<Rightarrow> addr \<Rightarrow> bool" where
  "bt_used m bt \<longleftrightarrow> load32 m bt AND flag_bits USED \<noteq> 0"

definition bt_free :: "memory \<Rightarrow> addr \<Rightarrow> bool" where
  "bt_free m bt \<longleftrightarrow> \<not> (load32 m bt AND flag_bits USED \<noteq> 0)"

definition bt_footer :: "memory \<Rightarrow> addr \<Rightarrow> addr" where
  "bt_footer m bt = bt + sint (bt_size m bt) - 4"

definition bt_fromptr :: "addr \<Rightarrow> addr" where
  "bt_fromptr ptr = ptr - 4"

definition bt_make :: "memory \<Rightarrow> addr \<Rightarrow> size_t \<Rightarrow> bt_flags \<Rightarrow> memory" where
  "bt_make m bt sz flags = store32 m bt (ucast sz OR flag_bits flags)"

definition bt_payload :: "addr \<Rightarrow> addr" where
  "bt_payload bt = bt + 4"

text \<open>\<^verbatim>\<open>bt_size(bt) / 4\<close> is a division of \<^verbatim>\<open>int32_t\<close>: it truncates towards zero.\<close>

definition bt_next :: "memory \<Rightarrow> addr \<Rightarrow> addr" where
  "bt_next m bt =
     (if bt_size m bt = 0 then NULL else bt + 4 * (sint (bt_size m bt) sdiv 4))"

definition bt_prev :: "mm_state \<Rightarrow> addr \<Rightarrow> addr" where
  "bt_prev s bt =
     (if bt_payload bt = bt_fromptr (heap_start s) then NULL
      else bt - 4 * (sint (bt_size (mem s) (bt - 4)) sdiv 4))"

section \<open>LIFO handling\<close>

definition lifo_get_next :: "memory \<Rightarrow> addr \<Rightarrow> word_t" where
  "lifo_get_next m bt = load32 m (bt + 4)"

definition lifo_get_prev :: "memory \<Rightarrow> addr \<Rightarrow> word_t" where
  "lifo_get_prev m bt = load32 m (bt + 8)"

definition lifo_put_next :: "memory \<Rightarrow> addr \<Rightarrow> word_t \<Rightarrow> memory" where
  "lifo_put_next m bt p = store32 m (bt + 4) p"

definition lifo_put_prev :: "memory \<Rightarrow> addr \<Rightarrow> word_t \<Rightarrow> memory" where
  "lifo_put_prev m bt p = store32 m (bt + 8) p"

text \<open>
  The difference of two \<^verbatim>\<open>word_t *\<close> is their distance in words (the byte distance
  of two word pointers is a multiple of 4), then cast to \<^verbatim>\<open>word_t\<close>.
\<close>

definition lifo_create_next :: "memory \<Rightarrow> addr \<Rightarrow> addr \<Rightarrow> memory" where
  "lifo_create_next m current_bt next_bt =
     lifo_put_next m current_bt (word_of_int ((next_bt - current_bt) div 4))"

definition lifo_create_prev :: "memory \<Rightarrow> addr \<Rightarrow> addr \<Rightarrow> memory" where
  "lifo_create_prev m current_bt prev_bt =
     lifo_put_prev m current_bt (word_of_int ((prev_bt - current_bt) div 4))"

definition lifo_next :: "memory \<Rightarrow> addr \<Rightarrow> addr" where
  "lifo_next m bt =
     (let distance = lifo_get_next m bt
      in if distance = 0 then NULL else bt + 4 * sint distance)"

definition lifo_prev :: "memory \<Rightarrow> addr \<Rightarrow> addr" where
  "lifo_prev m bt =
     (let distance = lifo_get_prev m bt
      in if distance = 0 then NULL else bt + 4 * sint distance)"

definition lifo_connect :: "memory \<Rightarrow> addr \<Rightarrow> addr \<Rightarrow> memory" where
  "lifo_connect m current_bt next_bt =
     lifo_create_prev (lifo_create_next m current_bt next_bt) next_bt current_bt"

definition lifo_add :: "mm_state \<Rightarrow> addr \<Rightarrow> mm_state" where
  "lifo_add s current_bt =
     (let next_bt = lifo_next (mem s) (bt_heap_start s);
          m1 = lifo_create_next (mem s) current_bt next_bt;
          m2 = lifo_create_prev m1 current_bt (bt_heap_start s);
          m3 = lifo_create_next m2 (bt_heap_start s) current_bt;
          m4 = lifo_create_prev m3 next_bt current_bt
      in s\<lparr>mem := m4\<rparr>)"

section \<open>Coalescing and initialisation\<close>

definition coalesce :: "mm_state \<Rightarrow> addr \<Rightarrow> addr \<times> mm_state" where
  "coalesce s ptr =
     (let current_bt = bt_fromptr ptr;
          prev_bt = bt_prev s current_bt;
          next_bt = bt_next (mem s) current_bt;
          sz = (scast (bt_size (mem s) current_bt) :: size_t)
      in if bt_used (mem s) prev_bt \<and> (bt_heap_last s = current_bt \<or> bt_used (mem s) next_bt)
         then (ptr, lifo_add s current_bt)
         else if bt_used (mem s) prev_bt \<and> (bt_heap_last s \<noteq> current_bt \<and> bt_free (mem s) next_bt)
         then
           (let sz = sz + scast (bt_size (mem s) next_bt);
                m1 = lifo_connect (mem s) (lifo_prev (mem s) next_bt) (lifo_next (mem s) next_bt);
                m2 = bt_make m1 current_bt sz FREE;
                m3 = bt_make m2 (bt_footer m2 current_bt) sz FREE;
                s1 = lifo_add (s\<lparr>mem := m3\<rparr>) current_bt
            in (ptr, if bt_heap_last s1 = next_bt then s1\<lparr>bt_heap_last := current_bt\<rparr> else s1))
         else if bt_free (mem s) prev_bt \<and> (bt_heap_last s = current_bt \<or> bt_used (mem s) next_bt)
         then
           (let sz = sz + scast (bt_size (mem s) prev_bt);
                m1 = lifo_connect (mem s) (lifo_prev (mem s) prev_bt) (lifo_next (mem s) prev_bt);
                m2 = bt_make m1 (bt_footer m1 current_bt) sz FREE;
                m3 = bt_make m2 prev_bt sz FREE;
                s1 = lifo_add (s\<lparr>mem := m3\<rparr>) prev_bt
            in (bt_payload prev_bt,
                if bt_heap_last s1 = current_bt then s1\<lparr>bt_heap_last := prev_bt\<rparr> else s1))
         else
           (let sz = sz + scast (bt_size (mem s) prev_bt + bt_size (mem s) next_bt);
                m1 = lifo_connect (mem s) (lifo_prev (mem s) prev_bt) (lifo_next (mem s) prev_bt);
                m2 = lifo_connect m1 (lifo_prev m1 next_bt) (lifo_next m1 next_bt);
                m3 = bt_make m2 prev_bt sz FREE;
                m4 = bt_make m3 (bt_footer m3 next_bt) sz FREE;
                s1 = lifo_add (s\<lparr>mem := m4\<rparr>) prev_bt
            in (bt_payload prev_bt,
                if bt_heap_last s1 = next_bt then s1\<lparr>bt_heap_last := prev_bt\<rparr> else s1)))"

text \<open>\<^verbatim>\<open>mm_init\<close> returns 0, or \<open>-1\<close> when the arena cannot be created.\<close>

definition mm_init :: "mm_state \<Rightarrow> int \<times> mm_state" where
  "mm_init s =
     (case mem_sbrk s (12 * 4) of (hs, s0) \<Rightarrow>
        if hs = -1 then (-1, s0\<lparr>heap_start := hs\<rparr>)
        else
          (let m1 = bt_make (mem s0) (hs + 4 * 3) ALIGNMENT USED;
               m2 = bt_make m1 (hs + 4 * 6) ALIGNMENT USED;
               m3 = lifo_create_next m2 (hs + 4 * 3) (hs + 4 * 7);
               m4 = store32 m3 (hs + 4 * 5) 0;
               m5 = bt_make m4 (hs + 4 * 7) ALIGNMENT USED;
               m6 = bt_make m5 (hs + 4 * 10) ALIGNMENT USED;
               m7 = store32 m6 (hs + 4 * 8) 0;
               m8 = lifo_create_prev m7 (hs + 4 * 7) (hs + 4 * 3);
               hs' = hs + 4 * 4
           in (0, s0\<lparr>mem := m8, heap_start := hs', bt_heap_start := bt_fromptr hs',
                     bt_heap_last := bt_fromptr hs' + 4 * 4\<rparr>)))"

section \<open>malloc\<close>

text \<open>
  The loop of \<^verbatim>\<open>find_fit\<close> follows the offsets stored in memory, so it need not
  terminate on an arbitrary memory: the result \<open>None\<close> stands for a scan that never ends.
  The comparisons are on \<^verbatim>\<open>size_t\<close>: the \<^verbatim>\<open>int32_t\<close> of \<^verbatim>\<open>bt_size\<close> is sign-extended.
\<close>

partial_function (option) find_fit_loop ::
  "memory \<Rightarrow> size_t \<Rightarrow> addr \<Rightarrow> addr \<Rightarrow> size_t \<Rightarrow> addr option" where
  "find_fit_loop m reqsz current_block result result_size =
     (if current_block \<noteq> NULL then
        (if bt_free m current_block \<and> reqsz \<le> scast (bt_size m current_block) then
           (if result = NULL then
              find_fit_loop m reqsz (lifo_next m current_block)
                current_block (scast (bt_size m current_block))
            else if scast (bt_size m current_block) < result_size then
              find_fit_loop m reqsz (lifo_next m current_block)
                current_block (scast (bt_size m current_block))
            else find_fit_loop m reqsz (lifo_next m current_block) result result_size)
         else find_fit_loop m reqsz (lifo_next m current_block) result result_size)
      else Some result)"

definition find_fit :: "mm_state \<Rightarrow> size_t \<Rightarrow> addr option" where
  "find_fit s reqsz =
     find_fit_loop (mem s) reqsz (lifo_next (mem s) (bt_heap_start s)) NULL 0"

definition place :: "mm_state \<Rightarrow> addr \<Rightarrow> size_t \<Rightarrow> mm_state" where
  "place s bt asize =
     (let csize = (scast (bt_size (mem s) bt) :: size_t)
      in if 16 \<le> csize - asize then
           (let m1 = bt_make (mem s) bt asize USED;
                m2 = bt_make m1 (bt_footer m1 bt) asize USED;
                bt_new = bt_next m2 bt;
                m3 = lifo_connect m2 (lifo_prev m2 bt) bt_new;
                m4 = lifo_connect m3 bt_new (lifo_next m3 bt);
                m5 = bt_make m4 bt_new (csize - asize) FREE;
                m6 = bt_make m5 (bt_footer m5 bt_new) (csize - asize) FREE
            in if bt = bt_heap_last s then s\<lparr>mem := m6, bt_heap_last := bt_new\<rparr>
               else s\<lparr>mem := m6\<rparr>)
         else
           (let m1 = lifo_connect (mem s) (lifo_prev (mem s) bt) (lifo_next (mem s) bt);
                m2 = bt_make m1 bt csize USED;
                m3 = bt_make m2 (bt_footer m2 bt) csize USED
            in s\<lparr>mem := m3\<rparr>))"

definition extend_heap :: "mm_state \<Rightarrow> size_t \<Rightarrow> addr \<times> mm_state" where
  "extend_heap s sz =
     (let round_size = (sz + ALIGNMENT - 1) AND - ALIGNMENT
      in case mem_sbrk s round_size of (ptr, s0) \<Rightarrow>
           if ptr = -1 then (NULL, s0)
           else
             (let bt = bt_fromptr ptr;
                  m1 = bt_make (mem s0) bt round_size FREE;
                  m2 = bt_make m1 (bt_footer m1 bt) round_size FREE
              in coalesce (s0\<lparr>mem := m2, bt_heap_last := bt\<rparr>) ptr))"

text \<open>The adjusted block size, as \<^verbatim>\<open>malloc\<close> computes it.\<close>

definition malloc_asize :: "size_t \<Rightarrow> size_t" where
  "malloc_asize sz =
     (if sz \<le> 8 then 16
      else ALIGNMENT * ((sz + 8 + ALIGNMENT - 1) div ALIGNMENT))"

definition malloc :: "mm_state \<Rightarrow> size_t \<Rightarrow> (addr \<times> mm_state) option" where
  "malloc s sz =
     (if sz = 0 then Some (NULL, s)
      else
        (let asize = malloc_asize sz
         in case find_fit s asize of
              None \<Rightarrow> None
            | Some bt \<Rightarrow>
                if bt \<noteq> NULL then Some (bt_payload bt, place s bt asize)
                else
                  (let extendsize = asize
                   in case extend_heap s extendsize of (ptr, s1) \<Rightarrow>
                        if ptr = NULL then Some (NULL, s1)
                        else (let bt = bt_fromptr ptr
                              in Some (bt_payload bt, place s1 bt asize)))))"

section \<open>free\<close>

definition free :: "mm_state \<Rightarrow> addr \<Rightarrow> mm_state" where
  "free s ptr =
     (if ptr = NULL then s
      else
        (let bt = bt_fromptr ptr;
             sz = (scast (bt_size (mem s) bt) :: size_t);
             m1 = bt_make (mem s) bt sz FREE;
             m2 = bt_make m1 (bt_footer m1 bt) sz FREE
         in snd (coalesce (s\<lparr>mem := m2\<rparr>) ptr)))"

section \<open>realloc\<close>

text \<open>The adjusted block size, as \<^verbatim>\<open>realloc\<close> computes it.\<close>

definition realloc_asize :: "size_t \<Rightarrow> size_t" where
  "realloc_asize sz =
     (if sz \<le> 8 then 16
      else ALIGNMENT * ((sz + 8 + ALIGNMENT - 1) div ALIGNMENT))"

text \<open>
  The locals \<^verbatim>\<open>next_bt\<close> and \<^verbatim>\<open>new_size\<close> of \<^verbatim>\<open>realloc\<close>: the successor by address when
  the block is not the topmost one and the successor is free (\<^verbatim>\<open>NULL\<close> otherwise), and
  the combined size (0 otherwise).
\<close>

definition realloc_next :: "mm_state \<Rightarrow> addr \<Rightarrow> addr \<times> size_t" where
  "realloc_next s current_bt =
     (let old_size = (scast (bt_size (mem s) current_bt) :: size_t)
      in if current_bt \<noteq> bt_heap_last s then
           (let next_bt = bt_next (mem s) current_bt
            in if bt_free (mem s) next_bt
               then (next_bt, old_size + scast (bt_size (mem s) next_bt))
               else (NULL, 0))
         else (NULL, 0))"

definition realloc :: "mm_state \<Rightarrow> addr \<Rightarrow> size_t \<Rightarrow> (addr \<times> mm_state) option" where
  "realloc s old_ptr sz =
     (if sz = 0 then Some (NULL, free s old_ptr)
      else if old_ptr = NULL then malloc s sz
      else
        (let asize = realloc_asize sz;
             current_bt = bt_fromptr old_ptr;
             old_size = (scast (bt_size (mem s) current_bt) :: size_t)
         in case realloc_next s current_bt of (next_bt, new_size) \<Rightarrow>
           if asize = old_size then Some (old_ptr, s)
           else if asize < old_size then
             (let csize = (scast (bt_size (mem s) current_bt) :: size_t)
              in if 16 \<le> csize - asize then
                   (let m1 = bt_make (mem s) current_bt asize USED;
                        m2 = bt_make m1 (bt_footer m1 current_bt) asize USED;
                        bt_new = bt_next m2 current_bt;
                        m3 = bt_make m2 bt_new (csize - asize) FREE;
                        m4 = bt_make m3 (bt_footer m3 bt_new) (csize - asize) FREE;
                        s1 = (if current_bt = bt_heap_last s
                              then s\<lparr>mem := m4, bt_heap_last := bt_new\<rparr>
                              else s\<lparr>mem := m4\<rparr>)
                    in Some (old_ptr, lifo_add s1 bt_new))
                 else Some (old_ptr, s))
           else if next_bt \<noteq> NULL \<and> asize \<le> new_size then
             (if 16 \<le> new_size - asize then
                (let m1 = bt_make (mem s) current_bt asize USED;
                     bt_new = bt_next m1 current_bt;
                     m2 = lifo_connect m1 (lifo_prev m1 next_bt) bt_new;
                     m3 = lifo_connect m2 bt_new (lifo_next m2 next_bt);
                     m4 = bt_make m3 (bt_footer m3 current_bt) asize USED;
                     m5 = bt_make m4 bt_new (new_size - asize) FREE;
                     m6 = bt_make m5 (bt_footer m5 bt_new) (new_size - asize) FREE
                 in Some (old_ptr,
                      if next_bt = bt_heap_last s then s\<lparr>mem := m6, bt_heap_last := bt_new\<rparr>
                      else s\<lparr>mem := m6\<rparr>))
              else
                (let m1 = lifo_connect (mem s) (lifo_prev (mem s) next_bt)
                            (lifo_next (mem s) next_bt);
                     m2 = bt_make m1 current_bt new_size USED;
                     m3 = bt_make m2 (bt_footer m2 current_bt) new_size USED
                 in Some (old_ptr,
                      if next_bt = bt_heap_last s then s\<lparr>mem := m3, bt_heap_last := current_bt\<rparr>
                      else s\<lparr>mem := m3\<rparr>)))
           else
             (case malloc s sz of
                None \<Rightarrow> None
              | Some (new_ptr, s1) \<Rightarrow>
                  if new_ptr = NULL then Some (NULL, s1)
                  else
                    (let m1 = memcpy (mem s1) new_ptr old_ptr (old_size - 8)
                     in Some (new_ptr, free (s1\<lparr>mem := m1\<rparr>) old_ptr)))))"

section \<open>calloc\<close>

definition calloc :: "mm_state \<Rightarrow> size_t \<Rightarrow> size_t \<Rightarrow> (addr \<times> mm_state) option" where
  "calloc s nmemb sz =
     (let bytes = nmemb * sz
      in case malloc s bytes of
           None \<Rightarrow> None
         | Some (new_ptr, s1) \<Rightarrow>
             if new_ptr \<noteq> NULL then Some (new_ptr, s1\<lparr>mem := memset (mem s1) new_ptr 0 bytes\<rparr>)
             else Some (new_ptr, s1))"

section \<open>Specification-level notions\<close>

subsection \<open>The free list as the sequence of blocks a scan visits\<close>

text \<open>
  \<open>lifo_path m p xs\<close>: following \<^verbatim>\<open>lifo_next\<close> from the pointer \<open>p\<close> visits exactly the
  blocks \<open>xs\<close>, in this order, and then reaches \<^verbatim>\<open>NULL\<close>.
\<close>

fun lifo_path :: "memory \<Rightarrow> addr \<Rightarrow> addr list \<Rightarrow> bool" where
  "lifo_path m p [] \<longleftrightarrow> p = NULL"
| "lifo_path m p (x # xs) \<longleftrightarrow> p \<noteq> NULL \<and> p = x \<and> lifo_path m (lifo_next m x) xs"

text \<open>The size of a block as \<^verbatim>\<open>find_fit\<close> compares it (a \<^verbatim>\<open>size_t\<close>).\<close>

definition block_size :: "memory \<Rightarrow> addr \<Rightarrow> size_t" where
  "block_size m b = scast (bt_size m b)"

definition fits :: "memory \<Rightarrow> size_t \<Rightarrow> addr \<Rightarrow> bool" where
  "fits m reqsz b \<longleftrightarrow> bt_free m b \<and> reqsz \<le> block_size m b"

text \<open>
  Position \<open>i\<close> of the list holds a best fit: a free block that is large enough, no
  larger than any other such block of the list, and the earliest among those of its size.
\<close>

definition best_of :: "memory \<Rightarrow> size_t \<Rightarrow> addr list \<Rightarrow> nat \<Rightarrow> bool" where
  "best_of m reqsz xs i \<longleftrightarrow>
     i < length xs \<and> fits m reqsz (xs ! i) \<and>
     (\<forall>j < length xs. fits m reqsz (xs ! j) \<longrightarrow>
        block_size m (xs ! i) \<le> block_size m (xs ! j) \<and>
        (block_size m (xs ! j) = block_size m (xs ! i) \<longrightarrow> i \<le> j))"

subsection \<open>The size rule in the words of the specification\<close>

text \<open>
  On unbounded integers: the minimum block size when the request is at most 8 bytes,
  otherwise the request plus 8 bytes of overhead, rounded up to a multiple of 16.
\<close>

definition needed_size_spec :: "int \<Rightarrow> int" where
  "needed_size_spec n = (if n \<le> 8 then 16 else 16 * ((n + 8 + 15) div 16))"

subsection \<open>Adjacent free blocks\<close>

text \<open>The block at \<open>bt\<close> and its successor by address are both free.\<close>

definition adjacent_free_at :: "memory \<Rightarrow> addr \<Rightarrow> bool" where
  "adjacent_free_at m bt \<longleftrightarrow> bt_free m bt \<and> bt_next m bt \<noteq> NULL \<and> bt_free m (bt_next m bt)"

subsection \<open>Well-formed blocks and free lists\<close>

text \<open>
  Block addresses lie 16 bytes apart, counted from the first sentinel at
  \<^verbatim>\<open>bt_heap_start\<close>, and links are 32-bit offsets from there: \<open>node_ok h x\<close> says that
  \<open>x\<close> is such an address within reach of the sentinel at \<open>h\<close>. The headers and the
  footers of blocks are the words at such an address and just before one:
  \<open>tag_cell h t\<close>.
\<close>

definition node_ok :: "addr \<Rightarrow> addr \<Rightarrow> bool" where
  "node_ok h x \<longleftrightarrow> h \<le> x \<and> x < h + 2 ^ 31 \<and> 16 dvd (x - h)"

definition tag_cell :: "addr \<Rightarrow> addr \<Rightarrow> bool" where
  "tag_cell h t \<longleftrightarrow> 16 dvd (t - h) \<or> 16 dvd (t + 4 - h)"

text \<open>
  \<open>linked m a b\<close>: in the memory \<open>m\<close> the list successor of \<open>a\<close> is \<open>b\<close> and the list
  predecessor of \<open>b\<close> is \<open>a\<close>. \<open>dll h m ns\<close>: the distinct block addresses \<open>ns\<close> are
  linked in both directions, each to the next.
\<close>

definition linked :: "memory \<Rightarrow> addr \<Rightarrow> addr \<Rightarrow> bool" where
  "linked m a b \<longleftrightarrow> lifo_next m a = b \<and> lifo_prev m b = a"

definition dll :: "addr \<Rightarrow> memory \<Rightarrow> addr list \<Rightarrow> bool" where
  "dll h m ns \<longleftrightarrow> distinct ns \<and> (\<forall>x \<in> set ns. node_ok h x) \<and> successively (linked m) ns"

text \<open>
  \<open>free_list s xs\<close>: the free list of the state \<open>s\<close> holds exactly the blocks \<open>xs\<close>, in
  this order, between the two sentinels that \<^verbatim>\<open>mm_init\<close> creates at \<^verbatim>\<open>bt_heap_start\<close>
  and 16 bytes after it; the link of the last sentinel is \<^verbatim>\<open>NULL\<close>.
\<close>

definition free_list :: "mm_state \<Rightarrow> addr list \<Rightarrow> bool" where
  "free_list s xs \<longleftrightarrow>
     0 < bt_heap_start s \<and>
     dll (bt_heap_start s) (mem s) (bt_heap_start s # xs @ [bt_heap_start s + 16]) \<and>
     lifo_get_next (mem s) (bt_heap_start s + 16) = 0"

text \<open>
  \<open>valid_block s x\<close>: at the block address \<open>x\<close> there is a block whose size is a
  multiple of 16, at least the minimum block size, and whose footer equals its header.
\<close>

definition valid_block :: "mm_state \<Rightarrow> addr \<Rightarrow> bool" where
  "valid_block s x \<longleftrightarrow>
     node_ok (bt_heap_start s) x \<and>
     16 \<le> sint (bt_size (mem s) x) \<and> 16 dvd sint (bt_size (mem s) x) \<and>
     x + sint (bt_size (mem s) x) < bt_heap_start s + 2 ^ 31 \<and>
     load32 (mem s) (bt_footer (mem s) x) = load32 (mem s) x"

section \<open>Concrete heaps\<close>

text \<open>
  A memory given by its words from a base address on (zero elsewhere), so that a
  concrete heap can be written down and read as a dump.
\<close>

fun mem_of :: "addr \<Rightarrow> word_t list \<Rightarrow> memory" where
  "mem_of base [] = (\<lambda>_. 0)"
| "mem_of base (w # ws) = store32 (mem_of (base + 4) ws) base w"

text \<open>
  A run of the allocator in an arena of 68 words at address 4096:
  \<^verbatim>\<open>mm_init(); a = malloc(24); g1 = malloc(40); b = malloc(56); g2 = malloc(8);
  c = malloc(40); g3 = malloc(8); free(a); free(c); free(b);\<close>
  The blocks are \<open>a\<close> at 4140 (32 bytes), \<open>g1\<close> at 4172 (48), \<open>b\<close> at 4220 (64), \<open>g2\<close> at
  4284 (16), \<open>c\<close> at 4300 (48) and \<open>g3\<close> at 4348 (16); the sentinels are at 4108 and 4124.
\<close>

definition demo_boot :: mm_state where
  "demo_boot =
     \<lparr>mem = mem_of 4096 (replicate 68 0),
      heap_start = 0, bt_heap_last = 0, bt_heap_start = 0,
      mem_brk = 4096, mem_max_addr = 4368\<rparr>"

definition demo_init :: mm_state where
  "demo_init =
     \<lparr>mem = mem_of 4096
       [0, 0, 0, 17, 4, 0, 17, 17, 0, - 4, 17, 0, 0, 0, 0, 0, 0, 0, 0, 0, 0, 0, 0, 0, 0, 0,
        0, 0, 0, 0, 0, 0, 0, 0, 0, 0, 0, 0, 0, 0, 0, 0, 0, 0, 0, 0, 0, 0, 0, 0, 0, 0, 0, 0,
        0, 0, 0, 0, 0, 0, 0, 0, 0, 0, 0, 0, 0, 0],
      heap_start = 4112, bt_heap_last = 4124, bt_heap_start = 4108,
      mem_brk = 4144, mem_max_addr = 4368\<rparr>"

definition demo1 :: mm_state where
  "demo1 =
     \<lparr>mem = mem_of 4096
       [0, 0, 0, 17, 4, 0, 17, 17, 0, - 4, 17, 33, - 4, - 8, 0, 0, 0, 0, 33, 0, 0, 0, 0, 0,
        0, 0, 0, 0, 0, 0, 0, 0, 0, 0, 0, 0, 0, 0, 0, 0, 0, 0, 0, 0, 0, 0, 0, 0, 0, 0, 0, 0,
        0, 0, 0, 0, 0, 0, 0, 0, 0, 0, 0, 0, 0, 0, 0, 0],
      heap_start = 4112, bt_heap_last = 4140, bt_heap_start = 4108,
      mem_brk = 4176, mem_max_addr = 4368\<rparr>"

definition demo2 :: mm_state where
  "demo2 =
     \<lparr>mem = mem_of 4096
       [0, 0, 0, 17, 4, 0, 17, 17, 0, - 4, 17, 33, - 4, - 8, 0, 0, 0, 0, 33, 49, - 12,
        - 16, 0, 0, 0, 0, 0, 0, 0, 0, 49, 0, 0, 0, 0, 0, 0, 0, 0, 0, 0, 0, 0, 0, 0, 0, 0,
        0, 0, 0, 0, 0, 0, 0, 0, 0, 0, 0, 0, 0, 0, 0, 0, 0, 0, 0, 0, 0],
      heap_start = 4112, bt_heap_last = 4172, bt_heap_start = 4108,
      mem_brk = 4224, mem_max_addr = 4368\<rparr>"

definition demo3 :: mm_state where
  "demo3 =
     \<lparr>mem = mem_of 4096
       [0, 0, 0, 17, 4, 0, 17, 17, 0, - 4, 17, 33, - 4, - 8, 0, 0, 0, 0, 33, 49, - 12,
        - 16, 0, 0, 0, 0, 0, 0, 0, 0, 49, 65, - 24, - 28, 0, 0, 0, 0, 0, 0, 0, 0, 0, 0, 0,
        0, 65, 0, 0, 0, 0, 0, 0, 0, 0, 0, 0, 0, 0, 0, 0, 0, 0, 0, 0, 0, 0, 0],
      heap_start = 4112, bt_heap_last = 4220, bt_heap_start = 4108,
      mem_brk = 4288, mem_max_addr = 4368\<rparr>"

definition demo4 :: mm_state where
  "demo4 =
     \<lparr>mem = mem_of 4096
       [0, 0, 0, 17, 4, 0, 17, 17, 0, - 4, 17, 33, - 4, - 8, 0, 0, 0, 0, 33, 49, - 12,
        - 16, 0, 0, 0, 0, 0, 0, 0, 0, 49, 65, - 24, - 28, 0, 0, 0, 0, 0, 0, 0, 0, 0, 0, 0,
        0, 65, 17, - 40, - 44, 17, 0, 0, 0, 0, 0, 0, 0, 0, 0, 0, 0, 0, 0, 0, 0, 0, 0],
      heap_start = 4112, bt_heap_last = 4284, bt_heap_start = 4108,
      mem_brk = 4304, mem_max_addr = 4368\<rparr>"

definition demo5 :: mm_state where
  "demo5 =
     \<lparr>mem = mem_of 4096
       [0, 0, 0, 17, 4, 0, 17, 17, 0, - 4, 17, 33, - 4, - 8, 0, 0, 0, 0, 33, 49, - 12,
        - 16, 0, 0, 0, 0, 0, 0, 0, 0, 49, 65, - 24, - 28, 0, 0, 0, 0, 0, 0, 0, 0, 0, 0, 0,
        0, 65, 17, - 40, - 44, 17, 49, - 44, - 48, 0, 0, 0, 0, 0, 0, 0, 0, 49, 0, 0, 0, 0,
        0],
      heap_start = 4112, bt_heap_last = 4300, bt_heap_start = 4108,
      mem_brk = 4352, mem_max_addr = 4368\<rparr>"

definition demo6 :: mm_state where
  "demo6 =
     \<lparr>mem = mem_of 4096
       [0, 0, 0, 17, 4, 0, 17, 17, 0, - 4, 17, 33, - 4, - 8, 0, 0, 0, 0, 33, 49, - 12,
        - 16, 0, 0, 0, 0, 0, 0, 0, 0, 49, 65, - 24, - 28, 0, 0, 0, 0, 0, 0, 0, 0, 0, 0, 0,
        0, 65, 17, - 40, - 44, 17, 49, - 44, - 48, 0, 0, 0, 0, 0, 0, 0, 0, 49, 17, - 56,
        - 60, 17, 0],
      heap_start = 4112, bt_heap_last = 4348, bt_heap_start = 4108,
      mem_brk = 4368, mem_max_addr = 4368\<rparr>"

definition demo7 :: mm_state where
  "demo7 =
     \<lparr>mem = mem_of 4096
       [0, 0, 0, 17, 8, 0, 17, 17, 0, 4, 17, 32, - 4, - 8, 0, 0, 0, 0, 32, 49, - 12, - 16,
        0, 0, 0, 0, 0, 0, 0, 0, 49, 65, - 24, - 28, 0, 0, 0, 0, 0, 0, 0, 0, 0, 0, 0, 0, 65,
        17, - 40, - 44, 17, 49, - 44, - 48, 0, 0, 0, 0, 0, 0, 0, 0, 49, 17, - 56, - 60, 17,
        0],
      heap_start = 4112, bt_heap_last = 4348, bt_heap_start = 4108,
      mem_brk = 4368, mem_max_addr = 4368\<rparr>"

definition demo8 :: mm_state where
  "demo8 =
     \<lparr>mem = mem_of 4096
       [0, 0, 0, 17, 48, 0, 17, 17, 0, 4, 17, 32, - 4, 40, 0, 0, 0, 0, 32, 49, - 12, - 16,
        0, 0, 0, 0, 0, 0, 0, 0, 49, 65, - 24, - 28, 0, 0, 0, 0, 0, 0, 0, 0, 0, 0, 0, 0, 65,
        17, - 40, - 44, 17, 48, - 40, - 48, 0, 0, 0, 0, 0, 0, 0, 0, 48, 17, - 56, - 60, 17,
        0],
      heap_start = 4112, bt_heap_last = 4348, bt_heap_start = 4108,
      mem_brk = 4368, mem_max_addr = 4368\<rparr>"

definition demo9 :: mm_state where
  "demo9 =
     \<lparr>mem = mem_of 4096
       [0, 0, 0, 17, 28, 0, 17, 17, 0, 4, 17, 32, - 4, 40, 0, 0, 0, 0, 32, 49, - 12, - 16,
        0, 0, 0, 0, 0, 0, 0, 0, 49, 64, 20, - 28, 0, 0, 0, 0, 0, 0, 0, 0, 0, 0, 0, 0, 64,
        17, - 40, - 44, 17, 48, - 40, - 20, 0, 0, 0, 0, 0, 0, 0, 0, 48, 17, - 56, - 60, 17,
        0],
      heap_start = 4112, bt_heap_last = 4348, bt_heap_start = 4108,
      mem_brk = 4368, mem_max_addr = 4368\<rparr>"

text \<open>
  Heaps that one more call makes of \<open>demo9\<close>: \<^verbatim>\<open>malloc(24)\<close> (\<open>demo_alloc\<close>),
  \<^verbatim>\<open>realloc(g1, 8)\<close> (\<open>demo_shrunk\<close>), \<^verbatim>\<open>place\<close> of 16 bytes in block \<open>c\<close>
  (\<open>demo_split\<close>), \<^verbatim>\<open>realloc(g1, 88)\<close> (\<open>demo_grown\<close>) and \<^verbatim>\<open>free(g1)\<close>
  (\<open>demo_merged\<close>); \<open>demo_pre\<close> is the heap inside \<^verbatim>\<open>free(g1)\<close> when \<^verbatim>\<open>coalesce\<close> is
  called, the tags of \<open>g1\<close> rewritten as free.
\<close>

definition demo_alloc :: mm_state where
  "demo_alloc =
     \<lparr>mem = mem_of 4096
       [0, 0, 0, 17, 28, 0, 17, 17, 0, 44, 17, 33, - 4, 40, 0, 0, 0, 0, 33, 49, - 12, - 16,
        0, 0, 0, 0, 0, 0, 0, 0, 49, 64, 20, - 28, 0, 0, 0, 0, 0, 0, 0, 0, 0, 0, 0, 0, 64,
        17, - 40, - 44, 17, 48, - 44, - 20, 0, 0, 0, 0, 0, 0, 0, 0, 48, 17, - 56, - 60, 17,
        0],
      heap_start = 4112, bt_heap_last = 4348, bt_heap_start = 4108,
      mem_brk = 4368, mem_max_addr = 4368\<rparr>"

definition demo_shrunk :: mm_state where
  "demo_shrunk =
     \<lparr>mem = mem_of 4096
       [0, 0, 0, 17, 20, 0, 17, 17, 0, 4, 17, 32, - 4, 40, 0, 0, 0, 0, 32, 17, - 12, - 16,
        17, 32, 8, - 20, 0, 0, 0, 0, 32, 64, 20, - 8, 0, 0, 0, 0, 0, 0, 0, 0, 0, 0, 0, 0,
        64, 17, - 40, - 44, 17, 48, - 40, - 20, 0, 0, 0, 0, 0, 0, 0, 0, 48, 17, - 56, - 60,
        17, 0],
      heap_start = 4112, bt_heap_last = 4348, bt_heap_start = 4108,
      mem_brk = 4368, mem_max_addr = 4368\<rparr>"

definition demo_split :: mm_state where
  "demo_split =
     \<lparr>mem = mem_of 4096
       [0, 0, 0, 17, 28, 0, 17, 17, 0, 4, 17, 32, - 4, 44, 0, 0, 0, 0, 32, 49, - 12, - 16,
        0, 0, 0, 0, 0, 0, 0, 0, 49, 64, 24, - 28, 0, 0, 0, 0, 0, 0, 0, 0, 0, 0, 0, 0, 64,
        17, - 40, - 44, 17, 17, - 40, - 20, 17, 32, - 44, - 24, 0, 0, 0, 0, 32, 17, - 56,
        - 60, 17, 0],
      heap_start = 4112, bt_heap_last = 4348, bt_heap_start = 4108,
      mem_brk = 4368, mem_max_addr = 4368\<rparr>"

definition demo_grown :: mm_state where
  "demo_grown =
     \<lparr>mem = mem_of 4096
       [0, 0, 0, 17, 40, 0, 17, 17, 0, 4, 17, 32, - 4, 40, 0, 0, 0, 0, 32, 97, - 12, - 16,
        0, 0, 0, 0, 0, 0, 0, 0, 49, 64, 20, - 28, 0, 0, 0, 0, 0, 0, 0, 0, 97, 16, 8, - 40,
        16, 17, - 40, - 44, 17, 48, - 40, - 8, 0, 0, 0, 0, 0, 0, 0, 0, 48, 17, - 56, - 60,
        17, 0],
      heap_start = 4112, bt_heap_last = 4348, bt_heap_start = 4108,
      mem_brk = 4368, mem_max_addr = 4368\<rparr>"

definition demo_pre :: mm_state where
  "demo_pre =
     \<lparr>mem = mem_of 4096
       [0, 0, 0, 17, 28, 0, 17, 17, 0, 4, 17, 32, - 4, 40, 0, 0, 0, 0, 32, 48, - 12, - 16,
        0, 0, 0, 0, 0, 0, 0, 0, 48, 64, 20, - 28, 0, 0, 0, 0, 0, 0, 0, 0, 0, 0, 0, 0, 64,
        17, - 40, - 44, 17, 48, - 40, - 20, 0, 0, 0, 0, 0, 0, 0, 0, 48, 17, - 56, - 60, 17,
        0],
      heap_start = 4112, bt_heap_last = 4348, bt_heap_start = 4108,
      mem_brk = 4368, mem_max_addr = 4368\<rparr>"

definition demo_merged :: mm_state where
  "demo_merged =
     \<lparr>mem = mem_of 4096
       [0, 0, 0, 17, 8, 0, 17, 17, 0, 44, 17, 144, 40, - 8, 0, 0, 0, 0, 32, 48, - 12, - 16,
        0, 0, 0, 0, 0, 0, 0, 0, 48, 64, 20, - 28, 0, 0, 0, 0, 0, 0, 0, 0, 0, 0, 0, 0, 144,
        17, - 40, - 44, 17, 48, - 44, - 40, 0, 0, 0, 0, 0, 0, 0, 0, 48, 17, - 56, - 60, 17,
        0],
      heap_start = 4112, bt_heap_last = 4348, bt_heap_start = 4108,
      mem_brk = 4368, mem_max_addr = 4368\<rparr>"

text \<open>
  The heap that \<^verbatim>\<open>realloc(g3, 24)\<close> makes of \<open>demo9\<close>: the topmost block \<open>g3\<close> cannot
  grow, its 8 bytes of payload move into the block \<open>a\<close>, and \<open>g3\<close> is merged with the
  free block \<open>c\<close> before it.
\<close>

definition demo_moved :: mm_state where
  "demo_moved =
     \<lparr>mem = mem_of 4096
       [0, 0, 0, 17, 48, 0, 17, 17, 0, 24, 17, 33, - 56, - 60, 0, 0,
        0, 0, 33, 49, - 12, - 16, 0, 0, 0, 0, 0, 0, 0, 0, 49, 64,
        - 24, 20, 0, 0, 0, 0, 0, 0, 0, 0, 0, 0, 0, 0, 64, 17, - 40,
        - 44, 17, 64, - 20, - 48, 0, 0, 0, 0, 0, 0, 0, 0, 48, 16,
        - 56, - 60, 64, 0],
      heap_start = 4112, bt_heap_last = 4300, bt_heap_start = 4108,
      mem_brk = 4368, mem_max_addr = 4368\<rparr>"

section \<open>Reading and writing memory\<close>

lemma load32_store32_same: "load32 (store32 m a v) a = v"
proof (rule bit_eqI)
  fix n assume "possible_bit TYPE(32 word) n"
  then have n: "n < 32" by simp
  consider "n < 8" | "8 \<le> n" "n < 16" | "16 \<le> n" "n < 24" | "24 \<le> n" "n < 32"
    using n by linarith
  then show "bit (load32 (store32 m a v) a) n = bit v n"
    by cases (auto simp: load32_def store32_def bit_simps)
qed

lemma load32_store32_other:
  "b + 4 \<le> a \<or> a + 4 \<le> b \<Longrightarrow> load32 (store32 m a v) b = load32 m b"
  unfolding load32_def store32_def by auto

lemma store32_store32_same: "store32 (store32 m a v) a w = store32 m a w"
  by (auto simp: store32_def fun_eq_iff)

lemma store32_outside: "x < a \<or> a + 4 \<le> x \<Longrightarrow> store32 m a v x = m x"
  by (auto simp: store32_def)

lemma store32_inside: "a \<le> x \<Longrightarrow> x < a + 4 \<Longrightarrow> store32 m a v x = store32 m' a v x"
  by (auto simp: store32_def)

lemma store32_commute:
  assumes "b + 4 \<le> a \<or> a + 4 \<le> b"
  shows "store32 (store32 m a v) b w = store32 (store32 m b w) a v"
proof (rule ext)
  fix x
  consider "a \<le> x" "x < a + 4" | "b \<le> x" "x < b + 4" | "x < a \<or> a + 4 \<le> x" "x < b \<or> b + 4 \<le> x"
    by linarith
  then show "store32 (store32 m a v) b w x = store32 (store32 m b w) a v x"
  proof cases
    case 1
    with assms have "x < b \<or> b + 4 \<le> x" by linarith
    then have "store32 (store32 m a v) b w x = store32 m a v x" by (rule store32_outside)
    also have "\<dots> = store32 (store32 m b w) a v x" using 1 by (rule store32_inside)
    finally show ?thesis .
  next
    case 2
    with assms have o: "x < a \<or> a + 4 \<le> x" by linarith
    have "store32 (store32 m a v) b w x = store32 m b w x" using 2 by (rule store32_inside)
    also have "\<dots> = store32 (store32 m b w) a v x" using o by (rule store32_outside[symmetric])
    finally show ?thesis .
  next
    case 3
    then show ?thesis by (simp add: store32_outside)
  qed
qed

lemma load32_mem_of:
  "base \<le> a \<Longrightarrow> a < base + 4 * int (length ws) \<Longrightarrow> 4 dvd (a - base) \<Longrightarrow>
   load32 (mem_of base ws) a = ws ! nat ((a - base) div 4)"
proof (induction ws arbitrary: base)
  case Nil
  then show ?case by simp
next
  case (Cons w ws)
  show ?case
  proof (cases "a = base")
    case True
    then show ?thesis by (simp add: load32_store32_same)
  next
    case False
    with Cons.prems have ge: "base + 4 \<le> a" by presburger
    have d: "4 dvd (a - (base + 4))" using Cons.prems by presburger
    have "load32 (mem_of (base + 4) ws) a = ws ! nat ((a - (base + 4)) div 4)"
      using Cons.prems ge d by (intro Cons.IH) auto
    moreover have "nat ((a - base) div 4) = Suc (nat ((a - (base + 4)) div 4))"
      using ge by (simp add: nat_add_distrib)
    ultimately show ?thesis using ge by (simp add: load32_store32_other)
  qed
qed

lemma store32_mem_of:
  "base \<le> a \<Longrightarrow> a < base + 4 * int (length ws) \<Longrightarrow> 4 dvd (a - base) \<Longrightarrow>
   store32 (mem_of base ws) a v = mem_of base (ws[nat ((a - base) div 4) := v])"
proof (induction ws arbitrary: base)
  case Nil
  then show ?case by simp
next
  case (Cons w ws)
  show ?case
  proof (cases "a = base")
    case True
    then show ?thesis by (simp add: store32_store32_same)
  next
    case False
    with Cons.prems have ge: "base + 4 \<le> a" by presburger
    have d: "4 dvd (a - (base + 4))" using Cons.prems by presburger
    have "store32 (mem_of (base + 4) ws) a v =
          mem_of (base + 4) (ws[nat ((a - (base + 4)) div 4) := v])"
      using Cons.prems ge d by (intro Cons.IH) auto
    moreover have "nat ((a - base) div 4) = Suc (nat ((a - (base + 4)) div 4))"
      using ge by (simp add: nat_add_distrib)
    ultimately show ?thesis using ge
      by (simp add: store32_commute[where a=base and b=a])
  qed
qed

declare mem_of.simps [simp del]

lemma replicate_numeral: "replicate (numeral n) x = x # replicate (pred_numeral n) x"
  by (simp add: numeral_eq_Suc)

lemma list_update_numeral: "(x # xs)[numeral n := v] = x # xs[pred_numeral n := v]"
  by (simp add: numeral_eq_Suc)

text \<open>The equations that evaluate the allocator on a concrete heap.\<close>

lemmas eval_defs =
  mm_init_def mem_sbrk_def ALIGNMENT_def bt_make_def bt_size_def bt_used_def bt_free_def
  bt_footer_def bt_fromptr_def bt_payload_def bt_next_def bt_prev_def
  lifo_get_next_def lifo_get_prev_def lifo_put_next_def lifo_put_prev_def
  lifo_create_next_def lifo_create_prev_def lifo_next_def lifo_prev_def lifo_connect_def
  lifo_add_def coalesce_def place_def extend_heap_def malloc_asize_def malloc_def free_def
  realloc_asize_def realloc_next_def realloc_def calloc_def find_fit_def
  find_fit_loop.simps Let_def load32_mem_of store32_mem_of list_update_numeral
  replicate_numeral

section \<open>The run that builds the concrete heaps\<close>

lemma demo_init_step: "mm_init demo_boot = (0, demo_init)"
  by (simp add: demo_boot_def demo_init_def eval_defs cong: let_weak_cong)

lemma demo1_step: "malloc demo_init 24 = Some (4144, demo1)"
  by (simp add: demo_init_def demo1_def eval_defs cong: let_weak_cong)

lemma demo2_step: "malloc demo1 40 = Some (4176, demo2)"
  by (simp add: demo1_def demo2_def eval_defs cong: let_weak_cong)

lemma demo3_step: "malloc demo2 56 = Some (4224, demo3)"
  by (simp add: demo2_def demo3_def eval_defs cong: let_weak_cong)

lemma demo4_step: "malloc demo3 8 = Some (4288, demo4)"
  by (simp add: demo3_def demo4_def eval_defs cong: let_weak_cong)

lemma demo5_step: "malloc demo4 40 = Some (4304, demo5)"
  by (simp add: demo4_def demo5_def eval_defs cong: let_weak_cong)

lemma demo6_step: "malloc demo5 8 = Some (4352, demo6)"
  by (simp add: demo5_def demo6_def eval_defs cong: let_weak_cong)

lemma demo7_step: "free demo6 4144 = demo7"
  by (simp add: demo6_def demo7_def eval_defs cong: let_weak_cong)

lemma demo8_step: "free demo7 4304 = demo8"
  by (simp add: demo7_def demo8_def eval_defs cong: let_weak_cong)

lemma demo9_step: "free demo8 4224 = demo9"
  by (simp add: demo8_def demo9_def eval_defs cong: let_weak_cong)

lemma demo_alloc_step: "malloc demo9 24 = Some (4144, demo_alloc)"
  by (simp add: demo9_def demo_alloc_def eval_defs cong: let_weak_cong)

lemma demo_shrunk_step: "realloc demo9 4176 8 = Some (4176, demo_shrunk)"
  by (simp add: demo9_def demo_shrunk_def eval_defs cong: let_weak_cong)

lemma demo_split_step: "place demo9 4300 16 = demo_split"
  by (simp add: demo9_def demo_split_def eval_defs cong: let_weak_cong)

lemma demo_grown_step: "realloc demo9 4176 88 = Some (4176, demo_grown)"
  by (simp add: demo9_def demo_grown_def eval_defs cong: let_weak_cong)

lemma demo_pre_step:
  "demo9\<lparr>mem := bt_make (bt_make (mem demo9) 4172 48 FREE) 4216 48 FREE\<rparr> = demo_pre"
  by (simp add: demo9_def demo_pre_def eval_defs cong: let_weak_cong)

lemma demo_merged_step: "free demo9 4176 = demo_merged"
  by (simp add: demo9_def demo_merged_def eval_defs cong: let_weak_cong)

section \<open>Best-fit search\<close>

lemma find_fit_loop_path:
  "lifo_path m p xs \<Longrightarrow>
   \<exists>r. find_fit_loop m reqsz p res rs = Some r \<and>
     ((r = res \<and>
       (\<forall>j < length xs. fits m reqsz (xs ! j) \<longrightarrow> res \<noteq> NULL \<and> rs \<le> block_size m (xs ! j)))
      \<or> (\<exists>i. best_of m reqsz xs i \<and> r = xs ! i \<and>
               (res \<noteq> NULL \<longrightarrow> block_size m (xs ! i) < rs)))"
proof (induction xs arbitrary: p res rs)
  case Nil
  then show ?case by (simp add: find_fit_loop.simps)
next
  case (Cons x xs)
  then have px: "p = x" "x \<noteq> NULL" and path: "lifo_path m (lifo_next m x) xs" by auto
  show ?case
  proof (cases "fits m reqsz x \<and> (res = NULL \<or> block_size m x < rs)")
    case True
    then have step: "find_fit_loop m reqsz p res rs =
                     find_fit_loop m reqsz (lifo_next m x) x (block_size m x)"
      using px by (subst find_fit_loop.simps) (auto simp: fits_def block_size_def)
    from Cons.IH[OF path, of x "block_size m x"] obtain r where
      r: "find_fit_loop m reqsz (lifo_next m x) x (block_size m x) = Some r"
      and d: "(r = x \<and> (\<forall>j < length xs. fits m reqsz (xs ! j) \<longrightarrow>
                  x \<noteq> NULL \<and> block_size m x \<le> block_size m (xs ! j)))
              \<or> (\<exists>i. best_of m reqsz xs i \<and> r = xs ! i \<and>
                  (x \<noteq> NULL \<longrightarrow> block_size m (xs ! i) < block_size m x))"
      by blast
    from d show ?thesis
    proof
      assume a: "r = x \<and> (\<forall>j < length xs. fits m reqsz (xs ! j) \<longrightarrow>
                   x \<noteq> NULL \<and> block_size m x \<le> block_size m (xs ! j))"
      have "best_of m reqsz (x # xs) 0"
        unfolding best_of_def using True a by (auto simp: nth_Cons split: nat.splits)
      then show ?thesis using step r a True
        by (intro exI[of _ r]) (auto intro!: exI[of _ 0])
    next
      assume "\<exists>i. best_of m reqsz xs i \<and> r = xs ! i \<and>
                (x \<noteq> NULL \<longrightarrow> block_size m (xs ! i) < block_size m x)"
      then obtain i where i: "best_of m reqsz xs i" "r = xs ! i"
          "block_size m (xs ! i) < block_size m x"
        using px by blast
      have "best_of m reqsz (x # xs) (Suc i)"
        unfolding best_of_def using i True
        by (auto simp: nth_Cons best_of_def split: nat.splits)
      moreover have "res \<noteq> NULL \<longrightarrow> block_size m (xs ! i) < rs" using True i by auto
      ultimately show ?thesis using step r i
        by (intro exI[of _ r]) (auto intro!: exI[of _ "Suc i"])
    qed
  next
    case False
    then have step: "find_fit_loop m reqsz p res rs =
                     find_fit_loop m reqsz (lifo_next m x) res rs"
      using px by (subst find_fit_loop.simps) (auto simp: fits_def block_size_def)
    from Cons.IH[OF path, of res rs] obtain r where
      r: "find_fit_loop m reqsz (lifo_next m x) res rs = Some r"
      and d: "(r = res \<and> (\<forall>j < length xs. fits m reqsz (xs ! j) \<longrightarrow>
                  res \<noteq> NULL \<and> rs \<le> block_size m (xs ! j)))
              \<or> (\<exists>i. best_of m reqsz xs i \<and> r = xs ! i \<and>
                  (res \<noteq> NULL \<longrightarrow> block_size m (xs ! i) < rs))"
      by blast
    from d show ?thesis
    proof
      assume a: "r = res \<and> (\<forall>j < length xs. fits m reqsz (xs ! j) \<longrightarrow>
                   res \<noteq> NULL \<and> rs \<le> block_size m (xs ! j))"
      then have "\<forall>j < length (x # xs). fits m reqsz ((x # xs) ! j) \<longrightarrow>
                   res \<noteq> NULL \<and> rs \<le> block_size m ((x # xs) ! j)"
        using False by (auto simp: nth_Cons split: nat.splits)
      then show ?thesis using step r a by auto
    next
      assume "\<exists>i. best_of m reqsz xs i \<and> r = xs ! i \<and>
                (res \<noteq> NULL \<longrightarrow> block_size m (xs ! i) < rs)"
      then obtain i where i: "best_of m reqsz xs i" "r = xs ! i"
          "res \<noteq> NULL \<longrightarrow> block_size m (xs ! i) < rs"
        by blast
      have "best_of m reqsz (x # xs) (Suc i)"
        unfolding best_of_def using i False
        by (auto simp: nth_Cons best_of_def split: nat.splits)
      then show ?thesis using step r i
        by (intro exI[of _ r]) (auto intro!: exI[of _ "Suc i"])
    qed
  qed
qed

text \<open>
  Claim C1. Whatever the memory and the requested size: when the scan from the
  sentinel's first successor visits the blocks \<open>xs\<close> before reaching \<^verbatim>\<open>NULL\<close>, then
  \<^verbatim>\<open>find_fit\<close> returns; if some block of \<open>xs\<close> is free and at least as large as the
  request it returns such a block of the smallest size, the earliest one in \<open>xs\<close> among
  those of that size; otherwise it returns \<^verbatim>\<open>NULL\<close>.
\<close>

theorem find_fit_best_fit:
  assumes "lifo_path (mem s) (lifo_next (mem s) (bt_heap_start s)) xs"
  shows "\<exists>r. find_fit s reqsz = Some r \<and>
           (if \<exists>b \<in> set xs. fits (mem s) reqsz b
            then \<exists>i. best_of (mem s) reqsz xs i \<and> r = xs ! i
            else r = NULL)"
proof -
  from find_fit_loop_path[OF assms, of reqsz NULL 0] obtain r where
    r: "find_fit s reqsz = Some r" and
    d: "(r = NULL \<and> (\<forall>j < length xs. \<not> fits (mem s) reqsz (xs ! j)))
        \<or> (\<exists>i. best_of (mem s) reqsz xs i \<and> r = xs ! i)"
    unfolding find_fit_def by auto
  show ?thesis
  proof (cases "\<exists>b \<in> set xs. fits (mem s) reqsz b")
    case True
    then have "\<not> (\<forall>j < length xs. \<not> fits (mem s) reqsz (xs ! j))"
      by (auto simp: in_set_conv_nth)
    with d r True show ?thesis by auto
  next
    case False
    then have "\<not> (\<exists>i. best_of (mem s) reqsz xs i)" by (auto simp: best_of_def)
    with d r False show ?thesis by auto
  qed
qed

text \<open>
  The free list of \<open>demo9\<close> holds the blocks of 64, 48 and 32 bytes in this order (and
  ends in the sentinel); a request of 48 bytes gets the block of 48 bytes, not the
  first block that is large enough.
\<close>

theorem find_fit_best_fit_witness:
  "lifo_path (mem demo9) (lifo_next (mem demo9) (bt_heap_start demo9))
     [4220, 4300, 4140, 4124] \<and>
   fits (mem demo9) 48 4220 \<and> block_size (mem demo9) 4220 = 64 \<and>
   find_fit demo9 48 = Some 4300"
proof -
  let ?xs = "[4220, 4300, 4140, 4124] :: addr list"
  have path: "lifo_path (mem demo9) (lifo_next (mem demo9) (bt_heap_start demo9)) ?xs"
    by (simp add: demo9_def eval_defs cong: let_weak_cong)
  have f0: "fits (mem demo9) 48 4220" "block_size (mem demo9) 4220 = 64"
    by (simp_all add: demo9_def fits_def block_size_def eval_defs cong: let_weak_cong)
  have f1: "fits (mem demo9) 48 4300" "block_size (mem demo9) 4300 = 48"
    by (simp_all add: demo9_def fits_def block_size_def eval_defs cong: let_weak_cong)
  have f2: "\<not> fits (mem demo9) 48 4140"
    by (simp add: demo9_def fits_def block_size_def eval_defs cong: let_weak_cong)
  have f3: "\<not> fits (mem demo9) 48 4124"
    by (simp add: demo9_def fits_def block_size_def eval_defs cong: let_weak_cong)
  from find_fit_best_fit[OF path, of 48] f0 obtain r i where
    r: "find_fit demo9 48 = Some r" and i: "best_of (mem demo9) 48 ?xs i" "r = ?xs ! i"
    by auto
  from i(1) have "i < 4" and fi: "fits (mem demo9) 48 (?xs ! i)"
    and le: "block_size (mem demo9) (?xs ! i) \<le> block_size (mem demo9) (?xs ! 1)"
    using f1 by (auto simp: best_of_def)
  then consider "i = 0" | "i = 1" | "i = 2" | "i = 3" by linarith
  then have "i = 1"
    using fi le f0 f1 f2 f3 by cases auto
  with r i(2) path f0 show ?thesis by simp
qed

section \<open>Zero sizes and null pointers\<close>

text \<open>
  Claim C4. \<^verbatim>\<open>malloc(0)\<close> returns \<^verbatim>\<open>NULL\<close> and leaves the state as it is;
  \<^verbatim>\<open>free(NULL)\<close> leaves the state as it is; \<^verbatim>\<open>realloc(ptr, 0)\<close>, for any \<open>ptr\<close>,
  returns \<^verbatim>\<open>NULL\<close> in the state that \<^verbatim>\<open>free(ptr)\<close> produces.
\<close>

theorem zero_size_semantics:
  "malloc s 0 = Some (NULL, s) \<and> free s NULL = s \<and>
   realloc s ptr 0 = Some (NULL, free s ptr)"
  by (simp add: malloc_def free_def realloc_def)

section \<open>The adjusted block size\<close>

lemma realloc_asize_eq: "realloc_asize sz = malloc_asize sz"
  by (simp add: realloc_asize_def malloc_asize_def)

lemma asize_no_wrap:
  assumes "8 < sz" "uint sz + 23 < 2 ^ 64"
  shows "uint (malloc_asize sz) = 16 * ((uint sz + 8 + 15) div 16)"
proof -
  have e: "sz + 8 + 16 - 1 = sz + 23" by simp
  have a: "uint (sz + 23) = uint sz + 23"
    using assms(2) by (simp add: uint_word_ariths)
  have "uint ((sz + 23) div 16) = (uint sz + 23) div 16"
    by (simp only: uint_div a) simp
  moreover have "16 * ((uint sz + 23) div 16) < 2 ^ 64" using assms(2) by simp
  moreover have "0 \<le> (uint sz + 23) div 16"
    using uint_ge_0[of sz] by (simp add: div_int_pos_iff)
  ultimately have "uint (16 * ((sz + 23) div 16)) = 16 * ((uint sz + 23) div 16)"
    by (simp add: uint_word_ariths)
  then show ?thesis using assms(1) unfolding malloc_asize_def ALIGNMENT_def e
    by (auto simp: ac_simps)
qed

lemma asize_wrap:
  assumes "2 ^ 64 \<le> uint sz + 23"
  shows "uint (sz + 8 + ALIGNMENT - 1) = uint sz + 23 - 2 ^ 64"
    and "malloc_asize sz = 0 \<or> malloc_asize sz = 16"
    and "malloc_asize sz < sz"
proof -
  have lt: "uint sz < 2 ^ 64" using uint_lt2p[of sz] by simp
  have e: "sz + 8 + ALIGNMENT - 1 = sz + 23" by (simp add: ALIGNMENT_def)
  have "uint (sz + 23) = (uint sz + 23) mod 2 ^ 64" by (simp add: uint_word_ariths)
  also have "\<dots> = uint sz + 23 - 2 ^ 64"
    using assms lt by (simp add: mod_pos_geq)
  finally have w: "uint (sz + 23) = uint sz + 23 - 2 ^ 64" .
  then show "uint (sz + 8 + ALIGNMENT - 1) = uint sz + 23 - 2 ^ 64" by (simp only: e)
  have r: "0 \<le> uint (sz + 23)" "uint (sz + 23) < 23" using w lt assms by simp_all
  have "uint ((sz + 23) div 16) = uint (sz + 23) div 16" by (simp add: uint_div)
  then have "uint ((sz + 23) div 16) = 0 \<or> uint ((sz + 23) div 16) = 1"
    using r by presburger
  then have d: "(sz + 23) div 16 = 0 \<or> (sz + 23) div 16 = 1"
    by (metis uint_0_iff uint_1 word_uint_eqI)
  have big: "8 < sz" "16 < sz" using assms by (simp_all add: word_less_def)
  then have a: "malloc_asize sz = 16 * ((sz + 23) div 16)"
    unfolding malloc_asize_def e ALIGNMENT_def by (auto simp: not_le ac_simps)
  from d show z: "malloc_asize sz = 0 \<or> malloc_asize sz = 16" unfolding a by auto
  from z big(2) show "malloc_asize sz < sz" by (auto simp: word_less_def)
qed

text \<open>
  Claim C5, as stated, fails: for the request \<open>2 ^ 64 - 1\<close> the sum \<^verbatim>\<open>size + 8 + 15\<close>
  wraps around and the code computes a block of 16 bytes, which is not the request plus
  8 rounded up to a multiple of 16.
\<close>

theorem needed_size_counterexample:
  "(18446744073709551615 :: size_t) \<noteq> 0 \<and>
   malloc_asize 18446744073709551615 = 16 \<and>
   needed_size_spec (uint (18446744073709551615 :: size_t)) = 18446744073709551632 \<and>
   uint (malloc_asize 18446744073709551615) \<noteq>
     needed_size_spec (uint (18446744073709551615 :: size_t))"
  by (simp add: malloc_asize_def needed_size_spec_def ALIGNMENT_def)

text \<open>
  Claim C5, amended. \<^verbatim>\<open>malloc\<close> and \<^verbatim>\<open>realloc\<close> compute the same block size for
  every request. For every non-zero request of at most \<open>2 ^ 64 - 24\<close> bytes (so that
  \<^verbatim>\<open>size + 8 + 15\<close> does not wrap) it is the size of the specification: 16 for a request
  of at most 8 bytes, otherwise the least multiple of 16 that is at least the request
  plus 8. For every larger request the sum \<^verbatim>\<open>size + 8 + 15\<close> wraps modulo \<open>2 ^ 64\<close> and
  the block size computed is smaller than the request.
\<close>

theorem needed_size_rule:
  "realloc_asize sz = malloc_asize sz \<and>
   (sz \<noteq> 0 \<and> uint sz + 23 < 2 ^ 64 \<longrightarrow>
      uint (malloc_asize sz) = needed_size_spec (uint sz) \<and>
      (sz \<le> 8 \<longrightarrow> malloc_asize sz = 16) \<and>
      (8 < sz \<longrightarrow> 16 dvd uint (malloc_asize sz) \<and> uint sz + 8 \<le> uint (malloc_asize sz) \<and>
          uint (malloc_asize sz) < uint sz + 8 + 16)) \<and>
   (2 ^ 64 \<le> uint sz + 23 \<longrightarrow>
      uint (sz + 8 + ALIGNMENT - 1) = uint sz + 23 - 2 ^ 64 \<and> malloc_asize sz < sz)"
proof (intro conjI impI)
  show "realloc_asize sz = malloc_asize sz" by (rule realloc_asize_eq)
next
  assume h: "sz \<noteq> 0 \<and> uint sz + 23 < 2 ^ 64"
  show "uint (malloc_asize sz) = needed_size_spec (uint sz)"
  proof (cases "sz \<le> 8")
    case True
    then have "uint sz \<le> 8" by (simp add: word_le_def)
    with True show ?thesis by (simp add: malloc_asize_def needed_size_spec_def)
  next
    case False
    then have "8 < sz" by simp
    moreover from this have "8 < uint sz" by (simp add: word_less_def)
    ultimately show ?thesis using h asize_no_wrap[of sz] by (simp add: needed_size_spec_def)
  qed
next
  assume "sz \<le> 8" then show "malloc_asize sz = 16" by (simp add: malloc_asize_def)
next
  assume h: "sz \<noteq> 0 \<and> uint sz + 23 < 2 ^ 64" and b: "8 < sz"
  then have e: "uint (malloc_asize sz) = 16 * ((uint sz + 8 + 15) div 16)"
    using asize_no_wrap by simp
  show "16 dvd uint (malloc_asize sz)" by (simp add: e)
  show "uint sz + 8 \<le> uint (malloc_asize sz)" unfolding e by presburger
  show "uint (malloc_asize sz) < uint sz + 8 + 16" unfolding e by presburger
next
  assume w: "2 ^ 64 \<le> uint sz + 23"
  show "uint (sz + 8 + ALIGNMENT - 1) = uint sz + 23 - 2 ^ 64" using w by (rule asize_wrap(1))
  show "malloc_asize sz < sz" using w by (rule asize_wrap(3))
qed

text \<open>
  A request of 100 bytes gets a block of 112 bytes from both functions; for a request
  of \<open>2 ^ 64 - 20\<close> bytes the sum wraps to 3 and the block size computed is 0.
\<close>

theorem needed_size_rule_witness:
  "(100 :: size_t) \<noteq> 0 \<and> uint (100 :: size_t) + 23 < 2 ^ 64 \<and> (8 :: size_t) < 100 \<and>
   realloc_asize 100 = 112 \<and> malloc_asize 100 = 112 \<and> needed_size_spec 100 = 112 \<and>
   2 ^ 64 \<le> uint (18446744073709551596 :: size_t) + 23 \<and>
   uint (18446744073709551596 + 8 + ALIGNMENT - 1 :: size_t) = 3 \<and>
   malloc_asize 18446744073709551596 = 0 \<and>
   malloc_asize 18446744073709551596 < 18446744073709551596"
  using needed_size_rule[of 100] needed_size_rule[of 18446744073709551596]
  by (simp add: malloc_asize_def ALIGNMENT_def needed_size_spec_def)

section \<open>calloc\<close>



text \<open>
  Claim C10. When the product of the arguments is zero as a \<^verbatim>\<open>size_t\<close>, and so in
  particular when one of them is zero, \<^verbatim>\<open>calloc\<close> returns \<^verbatim>\<open>NULL\<close> and the state is
  the one it was called in: nothing is allocated and no byte is written.
\<close>

theorem calloc_zero_product:
  "(nmemb = 0 \<or> sz = 0 \<longrightarrow> nmemb * sz = 0) \<and>
   (nmemb * sz = 0 \<longrightarrow> calloc s nmemb sz = Some (NULL, s))"
  by (auto simp: calloc_def malloc_def)

theorem calloc_zero_product_witness:
  "(0 :: size_t) * 5 = 0 \<and> calloc demo9 0 5 = Some (NULL, demo9) \<and>
   (2 ^ 32 :: size_t) * 2 ^ 32 = 0 \<and> calloc demo9 (2 ^ 32) (2 ^ 32) = Some (NULL, demo9)"
  using calloc_zero_product[of 0 5 demo9] calloc_zero_product[of "2 ^ 32" "2 ^ 32" demo9]
  by simp

section \<open>Shrinking in place leaves adjacent free blocks\<close>

text \<open>
  Claim C2 does not hold of the code. In the heap \<open>demo9\<close>, which the calls listed
  build, no block and its successor are both free. \<^verbatim>\<open>realloc(g1, 8)\<close> shrinks the
  block \<open>g1\<close> of 48 bytes at 4172 to 16 bytes in place and puts the remainder of 32
  bytes at 4188 on the free list without coalescing it: its successor by address, the
  block \<open>b\<close> at 4220, is free as well.
\<close>

theorem realloc_shrink_adjacent_free:
  "mm_init demo_boot = (0, demo_init) \<and> malloc demo_init 24 = Some (4144, demo1) \<and>
   malloc demo1 40 = Some (4176, demo2) \<and> malloc demo2 56 = Some (4224, demo3) \<and>
   malloc demo3 8 = Some (4288, demo4) \<and> malloc demo4 40 = Some (4304, demo5) \<and>
   malloc demo5 8 = Some (4352, demo6) \<and> free demo6 4144 = demo7 \<and>
   free demo7 4304 = demo8 \<and> free demo8 4224 = demo9 \<and>
   \<not> adjacent_free_at (mem demo9) 4140 \<and> \<not> adjacent_free_at (mem demo9) 4172 \<and>
   \<not> adjacent_free_at (mem demo9) 4220 \<and> \<not> adjacent_free_at (mem demo9) 4284 \<and>
   \<not> adjacent_free_at (mem demo9) 4300 \<and> bt_heap_last demo9 = 4348 \<and>
   realloc demo9 4176 8 = Some (4176, demo_shrunk) \<and>
   bt_free (mem demo_shrunk) 4188 \<and> bt_size (mem demo_shrunk) 4188 = 32 \<and>
   bt_next (mem demo_shrunk) 4188 = 4220 \<and> bt_free (mem demo_shrunk) 4220 \<and>
   adjacent_free_at (mem demo_shrunk) 4188 \<and> bt_heap_last demo_shrunk = 4348"
proof -
  have "\<not> adjacent_free_at (mem demo9) 4140" "\<not> adjacent_free_at (mem demo9) 4172"
    "\<not> adjacent_free_at (mem demo9) 4220" "\<not> adjacent_free_at (mem demo9) 4284"
    "\<not> adjacent_free_at (mem demo9) 4300" "bt_heap_last demo9 = 4348"
    by (simp_all add: adjacent_free_at_def demo9_def eval_defs cong: let_weak_cong)
  moreover have "bt_free (mem demo_shrunk) 4188" "bt_size (mem demo_shrunk) 4188 = 32"
    "bt_next (mem demo_shrunk) 4188 = 4220" "bt_free (mem demo_shrunk) 4220"
    "adjacent_free_at (mem demo_shrunk) 4188" "bt_heap_last demo_shrunk = 4348"
    by (simp_all add: adjacent_free_at_def demo_shrunk_def eval_defs cong: let_weak_cong)
  ultimately show ?thesis
    using demo_init_step demo1_step demo2_step demo3_step demo4_step demo5_step demo6_step
      demo7_step demo8_step demo9_step demo_shrunk_step
    by simp
qed

section \<open>Block addresses, tags and links\<close>

lemma sint_word_of_int_32:
  "- (2 ^ 31) \<le> k \<Longrightarrow> k < 2 ^ 31 \<Longrightarrow> sint (word_of_int k :: word_t) = k"
  by (simp add: sint_sbintrunc' signed_take_bit_int_eq_self)

lemma node_ok_dvd: "node_ok h a \<Longrightarrow> node_ok h b \<Longrightarrow> 16 dvd (b - a)"
proof -
  assume "node_ok h a" "node_ok h b"
  then have "16 dvd (b - h)" "16 dvd (a - h)" by (simp_all add: node_ok_def)
  then have "16 dvd ((b - h) - (a - h))" by (rule dvd_diff)
  then show ?thesis by simp
qed

lemma node_dist:
  assumes "node_ok h a" "node_ok h b"
  shows "sint (word_of_int ((b - a) div 4) :: word_t) = (b - a) div 4"
    and "4 * ((b - a) div 4) = b - a"
    and "a \<noteq> b \<Longrightarrow> (word_of_int ((b - a) div 4) :: word_t) \<noteq> 0"
proof -
  from assms have r: "- (2 ^ 31) < b - a" "b - a < 2 ^ 31"
    unfolding node_ok_def by linarith+
  have d: "16 dvd (b - a)" using assms by (rule node_ok_dvd)
  from d show e: "4 * ((b - a) div 4) = b - a" by presburger
  have "- (2 ^ 31) \<le> (b - a) div 4" "(b - a) div 4 < 2 ^ 31"
    using r by linarith+
  then show s: "sint (word_of_int ((b - a) div 4) :: word_t) = (b - a) div 4"
    by (rule sint_word_of_int_32)
  show "(word_of_int ((b - a) div 4) :: word_t) \<noteq> 0" if "a \<noteq> b"
  proof
    assume "(word_of_int ((b - a) div 4) :: word_t) = 0"
    then have "sint (word_of_int ((b - a) div 4) :: word_t) = 0" by simp
    with s e that show False by simp
  qed
qed

lemma node_apart:
  assumes "node_ok h a" "node_ok h b" "a \<noteq> b"
  shows "a + 16 \<le> b \<or> b + 16 \<le> a"
  using node_ok_dvd[OF assms(1,2)] assms(3) by presburger

lemma tag_node_apart:
  assumes "node_ok h a" "tag_cell h t"
  shows "t \<le> a \<or> a + 12 \<le> t"
proof -
  from assms have "16 dvd (a - h)" "16 dvd (t - h) \<or> 16 dvd (t + 4 - h)"
    by (simp_all add: node_ok_def tag_cell_def)
  then show ?thesis by presburger
qed

lemma tag_tag_apart:
  "tag_cell h t \<Longrightarrow> tag_cell h t' \<Longrightarrow> t = t' \<or> t + 4 \<le> t' \<or> t' + 4 \<le> t"
  unfolding tag_cell_def by presburger

text \<open>Link fields after a store to a link field\<close>

lemma lifo_next_create_next:
  assumes "node_ok h a" "node_ok h b" "node_ok h c"
  shows "lifo_next (lifo_create_next m a b) c = (if c = a \<and> a \<noteq> b then b else if c = a then NULL else lifo_next m c)"
proof (cases "c = a")
  case True
  show ?thesis
  proof (cases "a = b")
    case True
    with \<open>c = a\<close> show ?thesis
      by (simp add: lifo_next_def lifo_get_next_def lifo_create_next_def lifo_put_next_def
          load32_store32_same)
  next
    case False
    have "lifo_next (lifo_create_next m a b) a = a + 4 * sint (word_of_int ((b - a) div 4) :: word_t)"
      using node_dist(3)[OF assms(1,2) False]
      by (simp only: lifo_next_def lifo_get_next_def lifo_create_next_def lifo_put_next_def
          load32_store32_same Let_def if_False)
    also have "\<dots> = b" using node_dist(1,2)[OF assms(1,2)] by simp
    finally show ?thesis using True False by simp
  qed
next
  case False
  from node_apart[OF assms(1,3)] False have "c + 4 + 4 \<le> a + 4 \<or> a + 4 + 4 \<le> c + 4" by auto
  then have "load32 (store32 m (a + 4) (word_of_int ((b - a) div 4))) (c + 4) = load32 m (c + 4)"
    by (rule load32_store32_other)
  then show ?thesis using False
    by (simp add: lifo_next_def lifo_get_next_def lifo_create_next_def lifo_put_next_def)
qed

lemma lifo_prev_create_next:
  assumes "node_ok h a" "node_ok h c"
  shows "lifo_prev (lifo_create_next m a b) c = lifo_prev m c"
proof -
  from node_ok_dvd[OF assms] have "c + 8 + 4 \<le> a + 4 \<or> a + 4 + 4 \<le> c + 8"
    by presburger
  then have "load32 (store32 m (a + 4) (word_of_int ((b - a) div 4))) (c + 8) = load32 m (c + 8)"
    by (rule load32_store32_other)
  then show ?thesis
    by (simp only: lifo_prev_def lifo_get_prev_def lifo_create_next_def lifo_put_next_def)
qed

lemma lifo_prev_create_prev:
  assumes "node_ok h a" "node_ok h b" "node_ok h c"
  shows "lifo_prev (lifo_create_prev m a b) c = (if c = a \<and> a \<noteq> b then b else if c = a then NULL else lifo_prev m c)"
proof (cases "c = a")
  case True
  show ?thesis
  proof (cases "a = b")
    case True
    with \<open>c = a\<close> show ?thesis
      by (simp add: lifo_prev_def lifo_get_prev_def lifo_create_prev_def lifo_put_prev_def
          load32_store32_same)
  next
    case False
    have "lifo_prev (lifo_create_prev m a b) a = a + 4 * sint (word_of_int ((b - a) div 4) :: word_t)"
      using node_dist(3)[OF assms(1,2) False]
      by (simp only: lifo_prev_def lifo_get_prev_def lifo_create_prev_def lifo_put_prev_def
          load32_store32_same Let_def if_False)
    also have "\<dots> = b" using node_dist(1,2)[OF assms(1,2)] by simp
    finally show ?thesis using True False by simp
  qed
next
  case False
  from node_apart[OF assms(1,3)] False have "c + 8 + 4 \<le> a + 8 \<or> a + 8 + 4 \<le> c + 8" by auto
  then have "load32 (store32 m (a + 8) (word_of_int ((b - a) div 4))) (c + 8) = load32 m (c + 8)"
    by (rule load32_store32_other)
  then show ?thesis using False
    by (simp add: lifo_prev_def lifo_get_prev_def lifo_create_prev_def lifo_put_prev_def)
qed

lemma lifo_next_create_prev:
  assumes "node_ok h a" "node_ok h c"
  shows "lifo_next (lifo_create_prev m a b) c = lifo_next m c"
proof -
  from node_ok_dvd[OF assms] have "c + 4 + 4 \<le> a + 8 \<or> a + 8 + 4 \<le> c + 4"
    by presburger
  then have "load32 (store32 m (a + 8) (word_of_int ((b - a) div 4))) (c + 4) = load32 m (c + 4)"
    by (rule load32_store32_other)
  then show ?thesis
    by (simp only: lifo_next_def lifo_get_next_def lifo_create_prev_def lifo_put_prev_def)
qed

lemma lifo_get_next_create:
  assumes "node_ok h a" "node_ok h c"
  shows "c \<noteq> a \<Longrightarrow> lifo_get_next (lifo_create_next m a b) c = lifo_get_next m c"
    and "lifo_get_next (lifo_create_prev m a b) c = lifo_get_next m c"
proof -
  show "lifo_get_next (lifo_create_next m a b) c = lifo_get_next m c" if "c \<noteq> a"
  proof -
    from node_apart[OF assms] that have "c + 4 + 4 \<le> a + 4 \<or> a + 4 + 4 \<le> c + 4" by auto
    then show ?thesis
      unfolding lifo_get_next_def lifo_create_next_def lifo_put_next_def
      by (rule load32_store32_other)
  qed
  from node_ok_dvd[OF assms] have "c + 4 + 4 \<le> a + 8 \<or> a + 8 + 4 \<le> c + 4"
    by presburger
  then show "lifo_get_next (lifo_create_prev m a b) c = lifo_get_next m c"
    unfolding lifo_get_next_def lifo_create_prev_def lifo_put_prev_def
    by (rule load32_store32_other)
qed

text \<open>Tags after a store to a link field, link fields after a store to a tag\<close>

lemma load32_tag_create:
  assumes "node_ok h a" "tag_cell h t"
  shows "load32 (lifo_create_next m a b) t = load32 m t"
    and "load32 (lifo_create_prev m a b) t = load32 m t"
proof -
  from tag_node_apart[OF assms] have "t + 4 \<le> a + 4 \<or> a + 4 + 4 \<le> t" by linarith
  then show "load32 (lifo_create_next m a b) t = load32 m t"
    unfolding lifo_create_next_def lifo_put_next_def by (rule load32_store32_other)
  from tag_node_apart[OF assms] have "t + 4 \<le> a + 8 \<or> a + 8 + 4 \<le> t" by linarith
  then show "load32 (lifo_create_prev m a b) t = load32 m t"
    unfolding lifo_create_prev_def lifo_put_prev_def by (rule load32_store32_other)
qed

lemma link_store_tag:
  assumes "node_ok h c" "tag_cell h t"
  shows "lifo_next (store32 m t v) c = lifo_next m c"
    and "lifo_prev (store32 m t v) c = lifo_prev m c"
    and "lifo_get_next (store32 m t v) c = lifo_get_next m c"
proof -
  from tag_node_apart[OF assms] have 1: "c + 4 + 4 \<le> t \<or> t + 4 \<le> c + 4" by linarith
  from tag_node_apart[OF assms] have 2: "c + 8 + 4 \<le> t \<or> t + 4 \<le> c + 8" by linarith
  show "lifo_next (store32 m t v) c = lifo_next m c"
    unfolding lifo_next_def lifo_get_next_def using load32_store32_other[OF 1] by simp
  show "lifo_prev (store32 m t v) c = lifo_prev m c"
    unfolding lifo_prev_def lifo_get_prev_def using load32_store32_other[OF 2] by simp
  show "lifo_get_next (store32 m t v) c = lifo_get_next m c"
    unfolding lifo_get_next_def using load32_store32_other[OF 1] by simp
qed

lemma load32_store32_tag:
  assumes "tag_cell h t" "tag_cell h t'"
  shows "load32 (store32 m t v) t' = (if t = t' then v else load32 m t')"
  using tag_tag_apart[OF assms] load32_store32_same[of m t v] load32_store32_other[of t' t m v]
  by auto

section \<open>Doubly linked lists in memory\<close>

lemma successively_linked_frame:
  "successively (linked m) ns \<Longrightarrow>
   (\<forall>a \<in> set (butlast ns). lifo_next m' a = lifo_next m a) \<Longrightarrow>
   (\<forall>b \<in> set (tl ns). lifo_prev m' b = lifo_prev m b) \<Longrightarrow>
   successively (linked m') ns"
proof (induction ns)
  case Nil
  then show ?case by simp
next
  case (Cons x ns)
  show ?case
  proof (cases ns)
    case Nil
    then show ?thesis by simp
  next
    case (Cons y ys)
    with Cons.prems have "linked m x y" "successively (linked m) ns"
      "lifo_next m' x = lifo_next m x" "lifo_prev m' y = lifo_prev m y"
      "\<forall>a \<in> set (butlast ns). lifo_next m' a = lifo_next m a"
      "\<forall>b \<in> set (tl ns). lifo_prev m' b = lifo_prev m b"
      by auto
    with Cons.IH Cons show ?thesis by (simp add: linked_def)
  qed
qed

lemma lifo_connect_next:
  assumes "node_ok h a" "node_ok h b" "node_ok h c"
  shows "lifo_next (lifo_connect m a b) c = (if c = a \<and> a \<noteq> b then b else if c = a then NULL else lifo_next m c)"
  unfolding lifo_connect_def
  by (simp add: lifo_next_create_prev[OF assms(2,3)] lifo_next_create_next[OF assms])

lemma lifo_connect_prev:
  assumes "node_ok h a" "node_ok h b" "node_ok h c"
  shows "lifo_prev (lifo_connect m a b) c = (if c = b \<and> a \<noteq> b then a else if c = b then NULL else lifo_prev m c)"
  unfolding lifo_connect_def
  using lifo_prev_create_prev[OF assms(2,1,3), of "lifo_create_next m a b"]
    lifo_prev_create_next[OF assms(1,3), of m b]
  by auto

lemma lifo_connect_get_next:
  assumes "node_ok h a" "node_ok h b" "node_ok h c" "c \<noteq> a"
  shows "lifo_get_next (lifo_connect m a b) c = lifo_get_next m c"
  unfolding lifo_connect_def
  by (simp add: lifo_get_next_create(2)[OF assms(2,3)] lifo_get_next_create(1)[OF assms(1,3,4)])

lemma lifo_connect_tag:
  assumes "node_ok h a" "node_ok h b" "tag_cell h t"
  shows "load32 (lifo_connect m a b) t = load32 m t"
  unfolding lifo_connect_def
  by (simp add: load32_tag_create(2)[OF assms(2,3)] load32_tag_create(1)[OF assms(1,3)])

lemma dll_split:
  assumes "dll h m (pre @ x # post)" "pre \<noteq> []" "post \<noteq> []"
  shows "lifo_prev m x = last pre" "lifo_next m x = hd post"
    "successively (linked m) pre" "successively (linked m) post"
    "last pre \<noteq> hd post" "last pre \<noteq> x" "hd post \<noteq> x"
    "node_ok h (last pre)" "node_ok h (hd post)" "node_ok h x"
    "last pre \<notin> set (butlast pre)" "last pre \<notin> set post"
    "hd post \<notin> set pre" "hd post \<notin> set (tl post)"
    "x \<notin> set pre" "x \<notin> set post"
proof -
  from assms(1) have d: "distinct (pre @ x # post)" and n: "\<forall>y \<in> set (pre @ x # post). node_ok h y"
    and s: "successively (linked m) (pre @ x # post)"
    by (auto simp: dll_def)
  from s assms(2) have s1: "successively (linked m) pre" "successively (linked m) (x # post)"
      "linked m (last pre) x"
    by (auto simp: successively_append_iff)
  from s1(2) assms(3) have s2: "linked m x (hd post)" "successively (linked m) post"
    by (auto simp: successively_Cons)
  show "lifo_prev m x = last pre" using s1(3) by (simp add: linked_def)
  show "lifo_next m x = hd post" using s2(1) by (simp add: linked_def)
  show "successively (linked m) pre" by fact
  show "successively (linked m) post" by fact
  have lp: "last pre \<in> set pre" and hp: "hd post \<in> set post" using assms(2,3) by auto
  show "last pre \<noteq> hd post" "last pre \<noteq> x" "hd post \<noteq> x" using d lp hp by auto
  show "node_ok h (last pre)" "node_ok h (hd post)" "node_ok h x" using n lp hp by auto
  have "distinct (butlast pre @ [last pre])" using d assms(2) by simp
  then show "last pre \<notin> set (butlast pre)" by simp
  show "last pre \<notin> set post" using d lp by auto
  show "hd post \<notin> set pre" using d hp by auto
  show "hd post \<notin> set (tl post)" using d assms(3) by (cases post) auto
  show "x \<notin> set pre" "x \<notin> set post" using d by auto
qed

lemma in_set_tl: "x \<in> set (tl xs) \<Longrightarrow> x \<in> set xs"
  by (cases xs) auto

lemma dll_nodes: "dll h m ns \<Longrightarrow> x \<in> set ns \<Longrightarrow> node_ok h x"
  by (simp add: dll_def)

lemma dll_unlink:
  assumes d: "dll h m (pre @ x # post)" and ne: "pre \<noteq> []" "post \<noteq> []"
  shows "dll h (lifo_connect m (lifo_prev m x) (lifo_next m x)) (pre @ post)"
proof -
  let ?p = "last pre" and ?n = "hd post"
  let ?m' = "lifo_connect m ?p ?n"
  note s = dll_split[OF d ne]
  have nodes: "\<forall>y \<in> set (pre @ x # post). node_ok h y" and dist: "distinct (pre @ x # post)"
    using d by (auto simp: dll_def)
  have nx: "\<And>c. node_ok h c \<Longrightarrow> c \<noteq> ?p \<Longrightarrow> lifo_next ?m' c = lifo_next m c"
    using lifo_connect_next[OF s(8) s(9)] by simp
  have pv: "\<And>c. node_ok h c \<Longrightarrow> c \<noteq> ?n \<Longrightarrow> lifo_prev ?m' c = lifo_prev m c"
    using lifo_connect_prev[OF s(8) s(9)] by simp
  have 1: "successively (linked ?m') pre"
  proof (rule successively_linked_frame[OF s(3)])
    show "\<forall>a \<in> set (butlast pre). lifo_next ?m' a = lifo_next m a"
      using nx nodes s(11) by (auto dest: in_set_butlastD)
    show "\<forall>b \<in> set (tl pre). lifo_prev ?m' b = lifo_prev m b"
      using pv nodes s(13) by (auto dest: in_set_tl)
  qed
  have 2: "successively (linked ?m') post"
  proof (rule successively_linked_frame[OF s(4)])
    show "\<forall>a \<in> set (butlast post). lifo_next ?m' a = lifo_next m a"
      using nx nodes s(12) by (auto dest: in_set_butlastD)
    show "\<forall>b \<in> set (tl post). lifo_prev ?m' b = lifo_prev m b"
      using pv nodes s(14) by (auto dest: in_set_tl)
  qed
  have 3: "linked ?m' ?p ?n"
    using lifo_connect_next[OF s(8) s(9) s(8), of m] lifo_connect_prev[OF s(8) s(9) s(9), of m] s(5)
    by (simp add: linked_def)
  have "successively (linked ?m') (pre @ post)"
    using 1 2 3 by (simp add: successively_append_iff)
  moreover have "distinct (pre @ post)" using dist by auto
  moreover have "\<forall>y \<in> set (pre @ post). node_ok h y" using nodes by auto
  ultimately show ?thesis unfolding s(1,2) by (simp add: dll_def)
qed

lemma dll_replace:
  assumes d: "dll h m (pre @ x # post)" and ne: "pre \<noteq> []" "post \<noteq> []"
    and new: "node_ok h x'" "x' \<notin> set (pre @ x # post)"
  shows "dll h (lifo_connect (lifo_connect m (lifo_prev m x) x') x'
                  (lifo_next (lifo_connect m (lifo_prev m x) x') x)) (pre @ x' # post)"
proof -
  let ?p = "last pre" and ?n = "hd post"
  let ?m1 = "lifo_connect m ?p x'"
  let ?m' = "lifo_connect ?m1 x' ?n"
  note s = dll_split[OF d ne]
  have nodes: "\<forall>y \<in> set (pre @ x # post). node_ok h y" and dist: "distinct (pre @ x # post)"
    using d by (auto simp: dll_def)
  have lp: "?p \<in> set pre" and hp: "?n \<in> set post" using ne by auto
  have px': "?p \<noteq> x'" and nx': "?n \<noteq> x'" using new(2) lp hp by auto
  have rd: "lifo_next ?m1 x = ?n"
    using lifo_connect_next[OF s(8) new(1) s(10), of m] s(6) s(2) by simp
  have nx: "\<And>c. node_ok h c \<Longrightarrow> c \<noteq> ?p \<Longrightarrow> c \<noteq> x' \<Longrightarrow> lifo_next ?m' c = lifo_next m c"
    using lifo_connect_next[OF new(1) s(9), of _ ?m1] lifo_connect_next[OF s(8) new(1), of _ m]
    by simp
  have pv: "\<And>c. node_ok h c \<Longrightarrow> c \<noteq> ?n \<Longrightarrow> c \<noteq> x' \<Longrightarrow> lifo_prev ?m' c = lifo_prev m c"
    using lifo_connect_prev[OF new(1) s(9), of _ ?m1] lifo_connect_prev[OF s(8) new(1), of _ m]
    by simp
  have 1: "successively (linked ?m') pre"
  proof (rule successively_linked_frame[OF s(3)])
    show "\<forall>a \<in> set (butlast pre). lifo_next ?m' a = lifo_next m a"
      using nx nodes s(11) new(2) by (auto dest: in_set_butlastD)
    show "\<forall>b \<in> set (tl pre). lifo_prev ?m' b = lifo_prev m b"
      using pv nodes s(13) new(2) by (auto dest: in_set_tl)
  qed
  have 2: "successively (linked ?m') post"
  proof (rule successively_linked_frame[OF s(4)])
    show "\<forall>a \<in> set (butlast post). lifo_next ?m' a = lifo_next m a"
      using nx nodes s(12) new(2) by (auto dest: in_set_butlastD)
    show "\<forall>b \<in> set (tl post). lifo_prev ?m' b = lifo_prev m b"
      using pv nodes s(14) new(2) by (auto dest: in_set_tl)
  qed
  have 3: "linked ?m' ?p x'"
    using lifo_connect_next[OF new(1) s(9) s(8), of ?m1] lifo_connect_next[OF s(8) new(1) s(8), of m]
      lifo_connect_prev[OF new(1) s(9) new(1), of ?m1] lifo_connect_prev[OF s(8) new(1) new(1), of m]
      px' nx'
    by (simp add: linked_def)
  have 4: "linked ?m' x' ?n"
    using lifo_connect_next[OF new(1) s(9) new(1), of ?m1]
      lifo_connect_prev[OF new(1) s(9) s(9), of ?m1] nx'
    by (simp add: linked_def)
  have "successively (linked ?m') (pre @ x' # post)"
    using 1 2 3 4 ne by (simp add: successively_append_iff successively_Cons)
  moreover have "distinct (pre @ x' # post)" using dist new(2) by auto
  moreover have "\<forall>y \<in> set (pre @ x' # post). node_ok h y" using nodes new(1) by auto
  ultimately show ?thesis unfolding s(1) rd by (simp add: dll_def)
qed

lemma dll_add:
  assumes d: "dll h m (h0 # rest)" and ne: "rest \<noteq> []"
    and new: "node_ok h c" "c \<notin> set (h0 # rest)"
  shows "dll h (lifo_create_prev (lifo_create_next (lifo_create_prev
            (lifo_create_next m c (lifo_next m h0)) c h0) h0 c) (lifo_next m h0) c)
          (h0 # c # rest)"
proof -
  let ?n = "hd rest"
  let ?m1 = "lifo_create_next m c ?n"
  let ?m2 = "lifo_create_prev ?m1 c h0"
  let ?m3 = "lifo_create_next ?m2 h0 c"
  let ?m' = "lifo_create_prev ?m3 ?n c"
  have nodes: "\<forall>y \<in> set (h0 # rest). node_ok h y" and dist: "distinct (h0 # rest)"
    and s: "successively (linked m) (h0 # rest)"
    using d by (auto simp: dll_def)
  have hn: "?n \<in> set rest" using ne by auto
  have n0: "node_ok h h0" and nn: "node_ok h ?n" using nodes hn by auto
  have l0: "linked m h0 ?n" and sr: "successively (linked m) rest"
    using s ne by (auto simp: successively_Cons)
  then have rd: "lifo_next m h0 = ?n" by (simp add: linked_def)
  have ch: "c \<noteq> h0" and cn: "c \<noteq> ?n" and h0n: "h0 \<noteq> ?n" using new(2) hn dist by auto
  have nx: "\<And>a. node_ok h a \<Longrightarrow> lifo_next ?m' a =
      (if a = h0 then c else if a = c then ?n else lifo_next m a)"
    using ch cn
    by (simp add: lifo_next_create_prev[OF nn] lifo_next_create_next[OF n0 new(1)]
        lifo_next_create_prev[OF new(1)] lifo_next_create_next[OF new(1) nn])
  have pv: "\<And>a. node_ok h a \<Longrightarrow> lifo_prev ?m' a =
      (if a = ?n then c else if a = c then h0 else lifo_prev m a)"
    using ch cn
    by (simp add: lifo_prev_create_prev[OF nn new(1)] lifo_prev_create_next[OF n0]
        lifo_prev_create_prev[OF new(1) n0] lifo_prev_create_next[OF new(1)])
  have 1: "successively (linked ?m') rest"
  proof (rule successively_linked_frame[OF sr])
    show "\<forall>a \<in> set (butlast rest). lifo_next ?m' a = lifo_next m a"
      using nx nodes dist new(2) by (auto dest: in_set_butlastD)
    have nt: "?n \<notin> set (tl rest)" using dist ne by (cases rest) auto
    show "\<forall>b \<in> set (tl rest). lifo_prev ?m' b = lifo_prev m b"
    proof
      fix b assume b: "b \<in> set (tl rest)"
      then have "b \<in> set rest" by (rule in_set_tl)
      with nodes new(2) b nt have "node_ok h b" "b \<noteq> c" "b \<noteq> ?n" by auto
      then show "lifo_prev ?m' b = lifo_prev m b" using pv by simp
    qed
  qed
  have 2: "linked ?m' h0 c" using nx[OF n0] pv[OF new(1)] ch cn by (simp add: linked_def)
  have 3: "linked ?m' c ?n" using nx[OF new(1)] pv[OF nn] ch cn by (simp add: linked_def)
  have "successively (linked ?m') (h0 # c # rest)"
    using 1 2 3 ne by (simp add: successively_Cons)
  moreover have "distinct (h0 # c # rest)" using dist new(2) by auto
  moreover have "\<forall>y \<in> set (h0 # c # rest). node_ok h y" using nodes new(1) by auto
  ultimately show ?thesis unfolding rd by (simp add: dll_def)
qed

lemma dll_store_tag:
  assumes "dll h m ns" "tag_cell h t"
  shows "dll h (store32 m t v) ns"
proof -
  from assms(1) have n: "\<forall>y \<in> set ns. node_ok h y" and s: "successively (linked m) ns"
    by (auto simp: dll_def)
  have "successively (linked (store32 m t v)) ns"
  proof (rule successively_linked_frame[OF s])
    show "\<forall>a \<in> set (butlast ns). lifo_next (store32 m t v) a = lifo_next m a"
      using n link_store_tag(1)[OF _ assms(2)] by (auto dest: in_set_butlastD)
    show "\<forall>b \<in> set (tl ns). lifo_prev (store32 m t v) b = lifo_prev m b"
      using n link_store_tag(2)[OF _ assms(2)] by (auto dest: in_set_tl)
  qed
  with assms(1) show ?thesis by (simp add: dll_def)
qed

section \<open>The free list between the sentinels\<close>

lemma free_list_cong:
  "mem s' = mem s \<Longrightarrow> bt_heap_start s' = bt_heap_start s \<Longrightarrow> free_list s' xs = free_list s xs"
  by (simp add: free_list_def)

lemma free_list_nodes:
  assumes "free_list s xs"
  shows "node_ok (bt_heap_start s) (bt_heap_start s)"
    and "node_ok (bt_heap_start s) (bt_heap_start s + 16)"
    and "x \<in> set xs \<Longrightarrow> node_ok (bt_heap_start s) x"
    and "x \<in> set xs \<Longrightarrow> x \<noteq> bt_heap_start s \<and> x \<noteq> bt_heap_start s + 16"
    and "distinct xs"
  using assms by (auto simp: free_list_def dll_def)

lemma free_list_unlink:
  assumes fl: "free_list s xs" and x: "x \<in> set xs"
  defines "m' \<equiv> lifo_connect (mem s) (lifo_prev (mem s) x) (lifo_next (mem s) x)"
  shows "free_list (s\<lparr>mem := m'\<rparr>) (remove1 x xs)"
    and "\<And>t. tag_cell (bt_heap_start s) t \<Longrightarrow> load32 m' t = load32 (mem s) t"
proof -
  let ?h = "bt_heap_start s"
  from split_list[OF x] obtain ys zs where xs: "xs = ys @ x # zs" by blast
  let ?pre = "?h # ys" and ?post = "zs @ [?h + 16]"
  have d: "dll ?h (mem s) (?pre @ x # ?post)" using fl by (simp add: free_list_def xs)
  have ne: "?pre \<noteq> []" "?post \<noteq> []" by simp_all
  note sp = dll_split[OF d ne]
  have m': "m' = lifo_connect (mem s) (last ?pre) (hd ?post)"
    unfolding m'_def sp(1,2) ..
  have d': "dll ?h m' (?pre @ ?post)" using dll_unlink[OF d ne] by (simp add: m'_def)
  have dist: "distinct (?pre @ x # ?post)" using d by (simp add: dll_def)
  then have rm: "remove1 x xs = ys @ zs" unfolding xs by (simp add: remove1_append)
  have tl_in: "?h + 16 \<in> set ?post" by simp
  have "last ?pre \<in> set ?pre" by simp
  with dist tl_in have pt: "?h + 16 \<noteq> last ?pre"
    by (metis disjoint_iff distinct_append list.set_intros(2))
  have nt: "node_ok ?h (?h + 16)" using dll_nodes[OF d] by simp
  have "lifo_get_next m' (?h + 16) = lifo_get_next (mem s) (?h + 16)"
    unfolding m' using lifo_connect_get_next[OF sp(8) sp(9) nt pt] .
  with fl d' show "free_list (s\<lparr>mem := m'\<rparr>) (remove1 x xs)"
    by (simp add: free_list_def rm)
  show "load32 m' t = load32 (mem s) t" if "tag_cell ?h t" for t
    unfolding m' using lifo_connect_tag[OF sp(8) sp(9) that] .
qed

lemma free_list_replace:
  assumes fl: "free_list s xs" and x: "x \<in> set xs"
    and new: "node_ok (bt_heap_start s) x'" "x' \<notin> set xs" "bt_heap_start s + 16 < x'"
  defines "m1 \<equiv> lifo_connect (mem s) (lifo_prev (mem s) x) x'"
  defines "m' \<equiv> lifo_connect m1 x' (lifo_next m1 x)"
  shows "free_list (s\<lparr>mem := m'\<rparr>) (map (\<lambda>y. if y = x then x' else y) xs)"
    and "\<And>t. tag_cell (bt_heap_start s) t \<Longrightarrow> load32 m' t = load32 (mem s) t"
    and "\<And>t. tag_cell (bt_heap_start s) t \<Longrightarrow> load32 m1 t = load32 (mem s) t"
proof -
  let ?h = "bt_heap_start s"
  from split_list[OF x] obtain ys zs where xs: "xs = ys @ x # zs" by blast
  let ?pre = "?h # ys" and ?post = "zs @ [?h + 16]"
  have d: "dll ?h (mem s) (?pre @ x # ?post)" using fl by (simp add: free_list_def xs)
  have ne: "?pre \<noteq> []" "?post \<noteq> []" by simp_all
  note sp = dll_split[OF d ne]
  have fresh: "x' \<notin> set (?pre @ x # ?post)" using new(2,3) by (auto simp: xs)
  have m1: "m1 = lifo_connect (mem s) (last ?pre) x'" unfolding m1_def sp(1) ..
  have rd: "lifo_next m1 x = hd ?post"
    unfolding m1 using lifo_connect_next[OF sp(8) new(1) sp(10), of "mem s"] sp(6) sp(2) by simp
  have m': "m' = lifo_connect m1 x' (hd ?post)" unfolding m'_def rd ..
  have d': "dll ?h m' (?pre @ x' # ?post)"
    using dll_replace[OF d ne new(1) fresh] by (simp add: m'_def m1_def)
  have dist: "distinct (?pre @ x # ?post)" using d by (simp add: dll_def)
  then have "x \<notin> set ys" "x \<notin> set zs" by auto
  then have "map (\<lambda>y. if y = x then x' else y) ys = ys"
    "map (\<lambda>y. if y = x then x' else y) zs = zs"
    by (auto intro!: map_idI)
  then have rm: "map (\<lambda>y. if y = x then x' else y) xs = ys @ x' # zs"
    unfolding xs by simp
  have "last ?pre \<in> set ?pre" by simp
  with dist have pt: "?h + 16 \<noteq> last ?pre"
    by (metis disjoint_iff distinct_append list.set_intros(2) in_set_conv_decomp)
  have nt: "node_ok ?h (?h + 16)" using dll_nodes[OF d] by simp
  have tx: "?h + 16 \<noteq> x'" using new(3) by simp
  have "lifo_get_next m' (?h + 16) = lifo_get_next (mem s) (?h + 16)"
    unfolding m' m1
    using lifo_connect_get_next[OF new(1) sp(9) nt tx] lifo_connect_get_next[OF sp(8) new(1) nt pt]
    by simp
  with fl d' show "free_list (s\<lparr>mem := m'\<rparr>) (map (\<lambda>y. if y = x then x' else y) xs)"
    by (simp add: free_list_def rm)
  show t1: "load32 m1 t = load32 (mem s) t" if "tag_cell ?h t" for t
    unfolding m1 using lifo_connect_tag[OF sp(8) new(1) that] .
  show "load32 m' t = load32 (mem s) t" if "tag_cell ?h t" for t
    unfolding m' using lifo_connect_tag[OF new(1) sp(9) that] t1[OF that] by simp
qed

lemma free_list_add:
  assumes fl: "free_list s xs"
    and new: "node_ok (bt_heap_start s) c" "c \<notin> set xs" "bt_heap_start s + 16 < c"
  shows "free_list (lifo_add s c) (c # xs)"
    and "\<And>t. tag_cell (bt_heap_start s) t \<Longrightarrow> load32 (mem (lifo_add s c)) t = load32 (mem s) t"
    and "bt_heap_start (lifo_add s c) = bt_heap_start s"
    and "bt_heap_last (lifo_add s c) = bt_heap_last s"
    and "heap_start (lifo_add s c) = heap_start s"
    and "mem_brk (lifo_add s c) = mem_brk s"
    and "mem_max_addr (lifo_add s c) = mem_max_addr s"
proof -
  let ?h = "bt_heap_start s"
  let ?rest = "xs @ [?h + 16]"
  have d: "dll ?h (mem s) (?h # ?rest)" using fl by (simp add: free_list_def)
  have ne: "?rest \<noteq> []" by simp
  have fresh: "c \<notin> set (?h # ?rest)" using new(2,3) by auto
  have nh: "node_ok ?h ?h" and nt: "node_ok ?h (?h + 16)" using dll_nodes[OF d] by simp_all
  have l0: "linked (mem s) ?h (hd ?rest)" using d by (auto simp: dll_def successively_Cons)
  then have rd: "lifo_next (mem s) ?h = hd ?rest" by (simp add: linked_def)
  have nn: "node_ok ?h (hd ?rest)" using dll_nodes[OF d, of "hd ?rest"] ne
    by (metis hd_in_set list.set_intros(2))
  let ?m1 = "lifo_create_next (mem s) c (hd ?rest)"
  let ?m2 = "lifo_create_prev ?m1 c ?h"
  let ?m3 = "lifo_create_next ?m2 ?h c"
  let ?m' = "lifo_create_prev ?m3 (hd ?rest) c"
  have mem: "mem (lifo_add s c) = ?m'" by (simp add: lifo_add_def Let_def rd)
  have d': "dll ?h ?m' (?h # c # ?rest)" using dll_add[OF d ne new(1) fresh] unfolding rd .
  have "lifo_get_next ?m' (?h + 16) = lifo_get_next (mem s) (?h + 16)"
    using new(3) fresh
    by (simp add: lifo_get_next_create(2)[OF nn nt] lifo_get_next_create(2)[OF new(1) nt]
        lifo_get_next_create(1)[OF nh nt] lifo_get_next_create(1)[OF new(1) nt])
  moreover have bhs: "bt_heap_start (lifo_add s c) = ?h" by (simp add: lifo_add_def Let_def)
  ultimately show "free_list (lifo_add s c) (c # xs)"
    using fl d' by (simp add: free_list_def mem)
  show "load32 (mem (lifo_add s c)) t = load32 (mem s) t" if "tag_cell ?h t" for t
    unfolding mem
    by (simp add: load32_tag_create[OF nn that] load32_tag_create[OF nh that]
        load32_tag_create[OF new(1) that])
  show "bt_heap_start (lifo_add s c) = bt_heap_start s"
    "bt_heap_last (lifo_add s c) = bt_heap_last s"
    "heap_start (lifo_add s c) = heap_start s"
    "mem_brk (lifo_add s c) = mem_brk s"
    "mem_max_addr (lifo_add s c) = mem_max_addr s"
    by (simp_all add: lifo_add_def Let_def)
qed

lemma free_list_store_tag:
  assumes "free_list s xs" "tag_cell (bt_heap_start s) t"
  shows "free_list (s\<lparr>mem := store32 (mem s) t v\<rparr>) xs"
proof -
  have "node_ok (bt_heap_start s) (bt_heap_start s + 16)" using free_list_nodes(2)[OF assms(1)] .
  from link_store_tag(3)[OF this assms(2)] dll_store_tag[OF _ assms(2)] assms(1)
  show ?thesis by (simp add: free_list_def)
qed

section \<open>Decoding boundary tags\<close>

lemma uint_scast_nonneg:
  assumes a: "0 \<le> sint (w :: word_t)"
  shows "uint (scast w :: size_t) = sint w"
proof -
  have "sint w < 2 ^ 31" using sint_lt[of w] by simp
  moreover have "(2 :: int) ^ 31 \<le> 2 ^ 64" by simp
  ultimately have b: "sint w < 2 ^ 64" by linarith
  have "uint (scast w :: size_t) = uint (word_of_int (sint w) :: size_t)"
    by (simp only: scast_eq)
  also have "\<dots> = take_bit 64 (sint w)"
    by (simp only: uint_word_of_int_eq) simp
  also have "\<dots> = sint w"
    using a b by (simp add: take_bit_int_eq_self)
  finally show ?thesis .
qed

lemma tag_size_free: "even (w :: word_t) \<Longrightarrow> (w OR 0) AND NOT 1 = w"
  by (rule bit_eqI) (auto simp: bit_simps bit_0)

lemma tag_size_used: "even (w :: word_t) \<Longrightarrow> (w OR 1) AND NOT 1 = w"
  by (rule bit_eqI) (auto simp: bit_simps bit_0)

lemma tag_flag_free: "even (w :: word_t) \<Longrightarrow> (w OR 0) AND 1 = 0"
  by (rule bit_eqI) (auto simp: bit_simps bit_0)

lemma tag_flag_used: "(w OR 1) AND 1 = (1 :: word_t)"
  by (rule bit_eqI) (auto simp: bit_simps bit_0)

lemma ucast_size:
  fixes sz :: size_t
  assumes "uint sz = n" "n < 2 ^ 31" "even n"
  shows "sint (ucast sz :: word_t) = n" and "even (ucast sz :: word_t)"
proof -
  have n0: "0 \<le> n" using assms(1) uint_ge_0[of sz] by simp
  have "(2 :: int) ^ 31 \<le> 2 ^ 32" by simp
  with assms(2) have n32: "n < 2 ^ 32" by linarith
  have u: "uint (ucast sz :: word_t) = n"
    using n0 n32 assms(1) by (simp add: unsigned_ucast_eq take_bit_int_eq_self)
  have "sint (ucast sz :: word_t) = signed_take_bit 31 (uint (ucast sz :: word_t))"
    by (simp add: sint_uint)
  also have "\<dots> = n" unfolding u using n0 assms(2) by (simp add: signed_take_bit_int_eq_self)
  finally show "sint (ucast sz :: word_t) = n" .
  have "even (uint (ucast sz :: word_t))" unfolding u by fact
  then show "even (ucast sz :: word_t)"
    using bit_0 [of "ucast sz :: word_t"] bit_0 [of "uint (ucast sz :: word_t)"]
    by (simp add: bit_uint_iff)
qed

lemma tag_decode:
  fixes sz :: size_t
  assumes w: "load32 m b = ucast sz OR flag_bits f"
    and sz: "uint sz = n" "n < 2 ^ 31" "16 dvd n" "n \<noteq> 0"
  shows "sint (bt_size m b) = n" "bt_used m b \<longleftrightarrow> f = USED" "bt_free m b \<longleftrightarrow> f = FREE"
    "bt_footer m b = b + n - 4" "bt_next m b = b + n"
proof -
  have ev: "even n" using sz(3) by presburger
  note u = ucast_size[OF sz(1,2) ev]
  have s: "bt_size m b = ucast sz"
  proof (cases f)
    case FREE
    show ?thesis unfolding bt_size_def w FREE flag_bits.simps using u(2) by (rule tag_size_free)
  next
    case USED
    show ?thesis unfolding bt_size_def w USED flag_bits.simps using u(2) by (rule tag_size_used)
  qed
  show 1: "sint (bt_size m b) = n" unfolding s by (rule u(1))
  have fl: "(ucast sz OR flag_bits f) AND flag_bits USED = (if f = USED then 1 else 0 :: word_t)"
  proof (cases f)
    case FREE
    show ?thesis unfolding FREE flag_bits.simps using tag_flag_free[OF u(2)] by simp
  next
    case USED
    show ?thesis unfolding USED flag_bits.simps using tag_flag_used[of "ucast sz"] by simp
  qed
  show "bt_used m b \<longleftrightarrow> f = USED"
    unfolding bt_used_def w fl by simp
  show "bt_free m b \<longleftrightarrow> f = FREE"
    unfolding bt_free_def w fl by (cases f) simp_all
  show "bt_footer m b = b + n - 4" unfolding bt_footer_def 1 ..
  have "bt_size m b \<noteq> 0" using 1 sz(4) by auto
  moreover have "n sdiv 4 = n div 4" using sz(1) uint_ge_0[of sz]
    by (simp add: signed_divide_int_def sgn_if)
  moreover have "4 * (n div 4) = n" using sz(3) by presburger
  ultimately show "bt_next m b = b + n" unfolding bt_next_def 1 by simp
qed

lemma tag_cells:
  "node_ok h b \<Longrightarrow> tag_cell h b"
  "node_ok h b \<Longrightarrow> 16 dvd n \<Longrightarrow> tag_cell h (b + n - 4)"
  "node_ok h b \<Longrightarrow> tag_cell h (b - 4)"
proof -
  show "tag_cell h b" if "node_ok h b" using that by (simp add: node_ok_def tag_cell_def)
  show "tag_cell h (b + n - 4)" if "node_ok h b" "16 dvd n"
  proof -
    from that have "16 dvd (b - h)" by (simp add: node_ok_def)
    with that(2) have "16 dvd (b + n - 4 + 4 - h)" by presburger
    then show ?thesis unfolding tag_cell_def ..
  qed
  show "tag_cell h (b - 4)" if "node_ok h b" using that by (simp add: node_ok_def tag_cell_def)
qed

lemma node_ok_add:
  assumes "node_ok h b" "16 dvd n" "0 \<le> n" "b + n < h + 2 ^ 31"
  shows "node_ok h (b + n)"
proof -
  from assms have "16 dvd (b - h)" by (simp add: node_ok_def)
  with assms(2) have "16 dvd (b + n - h)" by presburger
  moreover have "h \<le> b + n" using assms(1,3) by (simp add: node_ok_def)
  ultimately show ?thesis using assms(4) unfolding node_ok_def by blast
qed

lemma load32_bt_make:
  assumes "tag_cell h t" "tag_cell h t'"
  shows "load32 (bt_make m t sz f) t' = (if t = t' then ucast sz OR flag_bits f else load32 m t')"
  unfolding bt_make_def by (rule load32_store32_tag[OF assms])

lemma links_bt_make:
  assumes "node_ok h c" "tag_cell h t"
  shows "lifo_next (bt_make m t sz f) c = lifo_next m c"
    and "lifo_prev (bt_make m t sz f) c = lifo_prev m c"
  unfolding bt_make_def by (rule link_store_tag[OF assms])+

lemma free_list_bt_make:
  assumes "free_list s xs" "tag_cell (bt_heap_start s) t"
  shows "free_list (s\<lparr>mem := bt_make (mem s) t sz f\<rparr>) xs"
  unfolding bt_make_def by (rule free_list_store_tag[OF assms])

lemma valid_block_cong:
  "mem s' = mem s \<Longrightarrow> bt_heap_start s' = bt_heap_start s \<Longrightarrow> valid_block s' x = valid_block s x"
  by (simp add: valid_block_def)

lemma valid_blockI:
  fixes sz :: size_t
  assumes "node_ok (bt_heap_start s) b"
    and "load32 (mem s) b = ucast sz OR flag_bits f"
    and "load32 (mem s) (b + n - 4) = ucast sz OR flag_bits f"
    and "uint sz = n" "16 \<le> n" "16 dvd n" "b + n < bt_heap_start s + 2 ^ 31"
  shows "valid_block s b" "sint (bt_size (mem s) b) = n"
    "bt_used (mem s) b \<longleftrightarrow> f = USED" "bt_free (mem s) b \<longleftrightarrow> f = FREE"
proof -
  have "bt_heap_start s \<le> b" using assms(1) by (simp add: node_ok_def)
  with assms(7) have n: "n < 2 ^ 31" "n \<noteq> 0" using assms(5) by linarith+
  note d = tag_decode[OF assms(2) assms(4) n(1) assms(6) n(2)]
  show "sint (bt_size (mem s) b) = n" "bt_used (mem s) b \<longleftrightarrow> f = USED"
    "bt_free (mem s) b \<longleftrightarrow> f = FREE" by (rule d)+
  show "valid_block s b"
    unfolding valid_block_def d(1) d(4) using assms by simp
qed

text \<open>The definitions that evaluate the heap predicates on a concrete heap.\<close>

lemmas heap_defs = free_list_def dll_def node_ok_def linked_def valid_block_def

section \<open>Placing a request in a free block\<close>

lemma size_arith:
  fixes asize :: size_t
  assumes c: "16 \<le> sint (bt_size m bt)" and le: "asize \<le> block_size m bt"
  shows "uint (scast (bt_size m bt) :: size_t) = sint (bt_size m bt)"
    and "uint asize \<le> sint (bt_size m bt)"
    and "uint (scast (bt_size m bt) - asize) = sint (bt_size m bt) - uint asize"
    and "(16 \<le> scast (bt_size m bt) - asize) \<longleftrightarrow> 16 \<le> sint (bt_size m bt) - uint asize"
proof -
  show u: "uint (scast (bt_size m bt) :: size_t) = sint (bt_size m bt)"
    using c by (intro uint_scast_nonneg) simp
  show "uint asize \<le> sint (bt_size m bt)"
    using le u by (simp add: block_size_def word_le_def)
  have "asize \<le> scast (bt_size m bt)" using le by (simp add: block_size_def)
  then show s: "uint (scast (bt_size m bt) - asize) = sint (bt_size m bt) - uint asize"
    using u by (simp add: uint_minus_simple_alt)
  show "(16 \<le> scast (bt_size m bt) - asize) \<longleftrightarrow> 16 \<le> sint (bt_size m bt) - uint asize"
    unfolding word_le_def s by simp
qed

lemma valid_block_tags:
  fixes sz :: size_t
  assumes "bt_heap_start s = h" "mem s = m" "node_ok h b"
    and "load32 m b = ucast sz OR flag_bits f"
    and "load32 m (b + n - 4) = ucast sz OR flag_bits f"
    and "uint sz = n" "16 \<le> n" "16 dvd n" "b + n < h + 2 ^ 31"
  shows "valid_block s b \<and> sint (bt_size m b) = n \<and>
         (bt_used m b \<longleftrightarrow> f = USED) \<and> (bt_free m b \<longleftrightarrow> f = FREE)"
  using valid_blockI[of s b sz f n] assms by blast

text \<open>
  Claim C6. Let the free list hold the blocks \<open>xs\<close>, and let \<open>bt\<close> be one of them: a
  well-formed free block, with no other list entry inside it, at least as large as the
  requested block size \<open>asize\<close> (a multiple of 16, at least 16, as the size rule
  gives). If the leftover is at least 16 bytes, \<^verbatim>\<open>place\<close> leaves at \<open>bt\<close> a block in use
  of size \<open>asize\<close> and after it the leftover as a free block, both with a footer equal
  to the header; the free list is the old one with the leftover in the position of
  \<open>bt\<close>, and the topmost-block pointer moves to the leftover when it was \<open>bt\<close>.
  Otherwise \<^verbatim>\<open>place\<close> leaves \<open>bt\<close> in use at its full size, footer equal to header,
  the free list is the old one without \<open>bt\<close>, and the topmost-block pointer stays.
\<close>

theorem place_effect:
  assumes fl: "free_list s xs" and mem: "bt \<in> set xs"
    and vb: "valid_block s bt" and fr: "bt_free (mem s) bt"
    and inside: "\<forall>x \<in> set xs. x \<le> bt \<or> bt + sint (bt_size (mem s) bt) \<le> x"
    and req: "16 \<le> uint asize" "16 dvd uint asize" "asize \<le> block_size (mem s) bt"
  shows "(if 16 \<le> sint (bt_size (mem s) bt) - uint asize then
            valid_block (place s bt asize) bt \<and>
            bt_used (mem (place s bt asize)) bt \<and>
            sint (bt_size (mem (place s bt asize)) bt) = uint asize \<and>
            valid_block (place s bt asize) (bt + uint asize) \<and>
            bt_free (mem (place s bt asize)) (bt + uint asize) \<and>
            sint (bt_size (mem (place s bt asize)) (bt + uint asize)) =
              sint (bt_size (mem s) bt) - uint asize \<and>
            free_list (place s bt asize) (map (\<lambda>x. if x = bt then bt + uint asize else x) xs) \<and>
            bt_heap_last (place s bt asize) =
              (if bt_heap_last s = bt then bt + uint asize else bt_heap_last s)
          else
            valid_block (place s bt asize) bt \<and>
            bt_used (mem (place s bt asize)) bt \<and>
            sint (bt_size (mem (place s bt asize)) bt) = sint (bt_size (mem s) bt) \<and>
            free_list (place s bt asize) (remove1 bt xs) \<and>
            bt_heap_last (place s bt asize) = bt_heap_last s) \<and>
         bt_heap_start (place s bt asize) = bt_heap_start s"
proof -
  define h where "h = bt_heap_start s"
  define c where "c = sint (bt_size (mem s) bt)"
  define a where "a = uint asize"
  define csize where "csize = (scast (bt_size (mem s) bt) :: size_t)"
  have nb: "node_ok h bt" and c16: "16 \<le> c" and cd: "16 dvd c" and cb: "bt + c < h + 2 ^ 31"
    using vb by (simp_all add: valid_block_def h_def c_def)
  have a16: "16 \<le> a" and ad: "16 dvd a" using req(1,2) by (simp_all add: a_def)
  note ar = size_arith[OF c16[unfolded c_def] req(3)]
  have ucs: "uint csize = c" and ale: "a \<le> c" and usub: "uint (csize - asize) = c - a"
    and cond: "(16 \<le> csize - asize) \<longleftrightarrow> 16 \<le> c - a"
    using ar by (simp_all add: csize_def c_def a_def)
  have hb: "h + 16 < bt"
  proof -
    from free_list_nodes(4)[OF fl mem] have ne: "bt \<noteq> h" "bt \<noteq> h + 16"
      by (simp_all add: h_def)
    have n0: "node_ok h h" "node_ok h (h + 16)"
      using free_list_nodes(1,2)[OF fl] by (simp_all add: h_def)
    have "bt + 16 \<le> h \<or> h + 16 \<le> bt" using node_apart[OF nb n0(1) ne(1)] .
    moreover have "bt + 16 \<le> h + 16 \<or> h + 16 + 16 \<le> bt" using node_apart[OF nb n0(2) ne(2)] .
    moreover have "h \<le> bt" using nb by (simp add: node_ok_def)
    ultimately show ?thesis by linarith
  qed
  have tb: "tag_cell h bt" using nb by (rule tag_cells(1))
  have tfc: "tag_cell h (bt + c - 4)" using nb cd by (rule tag_cells(2))
  have tfa: "tag_cell h (bt + a - 4)" using nb ad by (rule tag_cells(2))
  show ?thesis
  proof (cases "16 \<le> c - a")
    case True
    have nn: "node_ok h (bt + a)" using nb ad a16 cb True by (intro node_ok_add) auto
    have tn: "tag_cell h (bt + a)" using nn by (rule tag_cells(1))
    have ca: "16 dvd (c - a)" using cd ad by (rule dvd_diff)
    define m1 where "m1 = bt_make (mem s) bt asize USED"
    define m2 where "m2 = bt_make m1 (bt + a - 4) asize USED"
    have l1: "load32 m1 bt = ucast asize OR flag_bits USED"
      unfolding m1_def by (simp add: load32_bt_make[OF tb tb])
    have a31: "a < 2 ^ 31" "a \<noteq> 0"
      using ale cb nb a16 by (auto simp: node_ok_def)
    have f1: "bt_footer m1 bt = bt + a - 4"
      using tag_decode(4)[OF l1 _ a31(1) ad a31(2)] by (simp add: a_def)
    have l2: "load32 m2 bt = ucast asize OR flag_bits USED"
      "load32 m2 (bt + a - 4) = ucast asize OR flag_bits USED"
      unfolding m2_def using a16 l1 by (simp_all add: load32_bt_make[OF tfa tb] load32_bt_make[OF tfa tfa])
    have n2: "bt_next m2 bt = bt + a"
      using tag_decode(5)[OF l2(1) _ a31(1) ad a31(2)] by (simp add: a_def)
    have fl1: "free_list (s\<lparr>mem := m1\<rparr>) xs"
      unfolding m1_def using free_list_bt_make[OF fl, where t = bt] tb by (simp add: h_def)
    have fl2: "free_list (s\<lparr>mem := m2\<rparr>) xs"
      unfolding m2_def using free_list_bt_make[OF fl1, where t = "bt + a - 4"] tfa
      by (simp add: h_def)
    have fresh: "bt + a \<notin> set xs"
    proof
      assume "bt + a \<in> set xs"
      with inside have "bt + a \<le> bt \<or> bt + c \<le> bt + a" by (auto simp: c_def)
      with a16 True show False by simp
    qed
    define m3 where "m3 = lifo_connect m2 (lifo_prev m2 bt) (bt + a)"
    define m4 where "m4 = lifo_connect m3 (bt + a) (lifo_next m3 bt)"
    have rp: "free_list (s\<lparr>mem := m4\<rparr>) (map (\<lambda>y. if y = bt then bt + a else y) xs)"
      and t4: "\<And>t. tag_cell h t \<Longrightarrow> load32 m4 t = load32 m2 t"
      using free_list_replace[OF fl2 mem, of "bt + a"] nn fresh hb a16
      by (simp_all add: h_def m3_def m4_def)
    define m5 where "m5 = bt_make m4 (bt + a) (csize - asize) FREE"
    define m6 where "m6 = bt_make m5 (bt + c - 4) (csize - asize) FREE"
    have l5: "load32 m5 (bt + a) = ucast (csize - asize) OR flag_bits FREE"
      unfolding m5_def by (simp add: load32_bt_make[OF tn tn])
    have r31: "c - a < 2 ^ 31" "c - a \<noteq> 0" using a16 True cb nb by (auto simp: node_ok_def)
    have f5: "bt_footer m5 (bt + a) = bt + c - 4"
      using tag_decode(4)[OF l5 usub r31(1) ca r31(2)] by simp
    have l6: "load32 m6 bt = ucast asize OR flag_bits USED"
      "load32 m6 (bt + a - 4) = ucast asize OR flag_bits USED"
      "load32 m6 (bt + a) = ucast (csize - asize) OR flag_bits FREE"
      "load32 m6 (bt + c - 4) = ucast (csize - asize) OR flag_bits FREE"
      unfolding m6_def m5_def using a16 True l2 t4[OF tb] t4[OF tfa]
      by (simp_all add: load32_bt_make[OF tfc tb] load32_bt_make[OF tfc tfa]
          load32_bt_make[OF tfc tn] load32_bt_make[OF tfc tfc]
          load32_bt_make[OF tn tb] load32_bt_make[OF tn tfa] load32_bt_make[OF tn tn])
    have fl5: "free_list (s\<lparr>mem := m5\<rparr>) (map (\<lambda>y. if y = bt then bt + a else y) xs)"
      unfolding m5_def using free_list_bt_make[OF rp, where t = "bt + a"] tn by (simp add: h_def)
    have fl6: "free_list (s\<lparr>mem := m6\<rparr>) (map (\<lambda>y. if y = bt then bt + a else y) xs)"
      unfolding m6_def using free_list_bt_make[OF fl5, where t = "bt + c - 4"] tfc
      by (simp add: h_def)
    have pl: "place s bt asize =
        (if bt = bt_heap_last s then s\<lparr>mem := m6, bt_heap_last := bt + a\<rparr> else s\<lparr>mem := m6\<rparr>)"
      using True cond
      unfolding place_def Let_def csize_def[symmetric] m1_def[symmetric] f1
        m2_def[symmetric] n2 m3_def[symmetric] m4_def[symmetric] m5_def[symmetric] f5
        m6_def[symmetric]
      by simp
    have meq: "mem (place s bt asize) = m6" "bt_heap_start (place s bt asize) = h"
      "bt_heap_last (place s bt asize) = (if bt_heap_last s = bt then bt + a else bt_heap_last s)"
      unfolding pl by (auto simp: h_def)
    have bh6: "bt_heap_start (s\<lparr>mem := m6\<rparr>) = h" "mem (s\<lparr>mem := m6\<rparr>) = m6"
      by (simp_all add: h_def)
    have ua: "uint asize = a" by (simp add: a_def)
    have ba: "bt + a < h + 2 ^ 31" using ale cb by linarith
    have v1: "valid_block (s\<lparr>mem := m6\<rparr>) bt" "sint (bt_size m6 bt) = a" "bt_used m6 bt"
      using valid_block_tags[OF bh6 nb l6(1,2) ua a16 ad ba] by simp_all
    have bc: "bt + a + (c - a) < h + 2 ^ 31" "bt + a + (c - a) - 4 = bt + c - 4"
      using cb by simp_all
    have v2: "valid_block (s\<lparr>mem := m6\<rparr>) (bt + a)" "sint (bt_size m6 (bt + a)) = c - a"
      "bt_free m6 (bt + a)"
      using valid_block_tags[OF bh6 nn l6(3) l6(4)[folded bc(2)] usub True ca bc(1)] by simp_all
    have "valid_block (place s bt asize) bt" "valid_block (place s bt asize) (bt + a)"
      "free_list (place s bt asize) (map (\<lambda>y. if y = bt then bt + a else y) xs)"
      using v1(1) v2(1) fl6
        valid_block_cong[of "place s bt asize" "s\<lparr>mem := m6\<rparr>"]
        free_list_cong[of "place s bt asize" "s\<lparr>mem := m6\<rparr>"] meq
      by (simp_all add: h_def)
    with v1(2,3) v2(2,3) meq True show ?thesis
      unfolding c_def a_def h_def by simp
  next
    case False
    define m1 where "m1 = lifo_connect (mem s) (lifo_prev (mem s) bt) (lifo_next (mem s) bt)"
    define m2 where "m2 = bt_make m1 bt csize USED"
    define m3 where "m3 = bt_make m2 (bt + c - 4) csize USED"
    have ul: "free_list (s\<lparr>mem := m1\<rparr>) (remove1 bt xs)"
      and t1: "\<And>t. tag_cell h t \<Longrightarrow> load32 m1 t = load32 (mem s) t"
      using free_list_unlink[OF fl mem] by (simp_all add: m1_def h_def)
    have l2: "load32 m2 bt = ucast csize OR flag_bits USED"
      unfolding m2_def by (simp add: load32_bt_make[OF tb tb])
    have c31: "c < 2 ^ 31" "c \<noteq> 0" using cb nb c16 by (auto simp: node_ok_def)
    have f2: "bt_footer m2 bt = bt + c - 4"
      using tag_decode(4)[OF l2 ucs c31(1) cd c31(2)] .
    have l3: "load32 m3 bt = ucast csize OR flag_bits USED"
      "load32 m3 (bt + c - 4) = ucast csize OR flag_bits USED"
      unfolding m3_def using c16 l2
      by (simp_all add: load32_bt_make[OF tfc tb] load32_bt_make[OF tfc tfc])
    have fl2: "free_list (s\<lparr>mem := m2\<rparr>) (remove1 bt xs)"
      unfolding m2_def using free_list_bt_make[OF ul, where t = bt] tb by (simp add: h_def)
    have fl3: "free_list (s\<lparr>mem := m3\<rparr>) (remove1 bt xs)"
      unfolding m3_def using free_list_bt_make[OF fl2, where t = "bt + c - 4"] tfc
      by (simp add: h_def)
    have pl: "place s bt asize = s\<lparr>mem := m3\<rparr>"
      using False cond
      unfolding place_def Let_def csize_def[symmetric] m1_def[symmetric] m2_def[symmetric] f2
        m3_def[symmetric]
      by simp
    have bh3: "bt_heap_start (s\<lparr>mem := m3\<rparr>) = h" "mem (s\<lparr>mem := m3\<rparr>) = m3"
      by (simp_all add: h_def)
    have v: "valid_block (s\<lparr>mem := m3\<rparr>) bt" "sint (bt_size m3 bt) = c" "bt_used m3 bt"
      using valid_block_tags[OF bh3 nb l3 ucs c16 cd cb] by simp_all
    with fl3 False show ?thesis
      unfolding pl c_def a_def h_def by simp
  qed
qed

text \<open>
  In \<open>demo9\<close> the free block \<open>c\<close> of 48 bytes at 4300 takes a request of 16 bytes: the
  leftover of 32 bytes at 4316 stands where \<open>c\<close> stood, second in the free list.
\<close>

theorem place_effect_witness:
  "free_list demo9 [4220, 4300, 4140] \<and> valid_block demo9 4300 \<and> bt_free (mem demo9) 4300 \<and>
   sint (bt_size (mem demo9) 4300) = 48 \<and> bt_heap_last demo9 = 4348 \<and>
   place demo9 4300 16 = demo_split \<and>
   valid_block demo_split 4300 \<and> bt_used (mem demo_split) 4300 \<and>
   sint (bt_size (mem demo_split) 4300) = 16 \<and>
   valid_block demo_split 4316 \<and> bt_free (mem demo_split) 4316 \<and>
   sint (bt_size (mem demo_split) 4316) = 32 \<and>
   free_list demo_split [4220, 4316, 4140] \<and> bt_heap_last demo_split = 4348"
  using place_effect[of demo9 "[4220, 4300, 4140]" 4300 16]
  by (simp add: heap_defs block_size_def demo9_def demo_split_def eval_defs cong: let_weak_cong)

section \<open>Coalescing\<close>

lemma uint_add_scast:
  assumes "0 \<le> sint (a :: word_t)" "0 \<le> sint (b :: word_t)"
  shows "uint (scast a + scast b :: size_t) = sint a + sint b"
proof -
  have "sint a < 2 ^ 31" "sint b < 2 ^ 31" using sint_lt[of a] sint_lt[of b] by simp_all
  moreover have "(2 :: int) ^ 31 + 2 ^ 31 \<le> 2 ^ 64" by simp
  ultimately have "sint a + sint b < 2 ^ 64" by linarith
  moreover have "0 \<le> sint a + sint b" using assms by simp
  ultimately show ?thesis
    by (simp add: uint_word_ariths uint_scast_nonneg[OF assms(1)] uint_scast_nonneg[OF assms(2)]
        take_bit_int_eq_self flip: take_bit_eq_mod)
qed

lemma sint_add_32:
  assumes "0 \<le> sint (p :: word_t)" "0 \<le> sint (n :: word_t)" "sint p + sint n < 2 ^ 31"
  shows "sint (p + n) = sint p + sint n"
proof -
  have "sint (p + n) = signed_take_bit 31 (sint p + sint n)"
    by (simp add: sint_word_ariths)
  also have "\<dots> = sint p + sint n"
    using assms by (simp add: signed_take_bit_int_eq_self)
  finally show ?thesis .
qed

lemma valid_block_next:
  assumes "valid_block s b"
  shows "bt_next (mem s) b = b + sint (bt_size (mem s) b)"
proof -
  let ?n = "sint (bt_size (mem s) b)"
  from assms have n: "16 \<le> ?n" "16 dvd ?n" by (simp_all add: valid_block_def)
  then have "bt_size (mem s) b \<noteq> 0" by auto
  moreover have "?n sdiv 4 = ?n div 4" using n(1) by (simp add: signed_divide_int_def sgn_if)
  moreover have "4 * (?n div 4) = ?n" using n(2) by presburger
  ultimately show ?thesis unfolding bt_next_def by simp
qed

lemma tags_frame:
  assumes fr: "\<And>t. tag_cell h t \<Longrightarrow> load32 m' t = load32 m t" and nb: "node_ok h b"
  shows "bt_size m' b = bt_size m b" "bt_used m' b = bt_used m b" "bt_free m' b = bt_free m b"
    "bt_footer m' b = bt_footer m b" "bt_next m' b = bt_next m b"
proof -
  have l: "load32 m' b = load32 m b" using fr[OF tag_cells(1)[OF nb]] .
  show s: "bt_size m' b = bt_size m b" by (simp add: bt_size_def l)
  show "bt_used m' b = bt_used m b" "bt_free m' b = bt_free m b"
    by (simp_all add: bt_used_def bt_free_def l)
  show "bt_footer m' b = bt_footer m b" "bt_next m' b = bt_next m b"
    by (simp_all add: bt_footer_def bt_next_def s)
qed

lemma valid_block_frame:
  assumes vb: "valid_block s b" and h: "bt_heap_start s' = bt_heap_start s"
    and fr: "\<And>t. tag_cell (bt_heap_start s) t \<Longrightarrow> load32 (mem s') t = load32 (mem s) t"
  shows "valid_block s' b" "bt_size (mem s') b = bt_size (mem s) b"
    "bt_free (mem s') b = bt_free (mem s) b"
proof -
  let ?h = "bt_heap_start s"
  from vb have nb: "node_ok ?h b" and d: "16 dvd sint (bt_size (mem s) b)"
    by (simp_all add: valid_block_def)
  note t = tags_frame[of ?h "mem s'" "mem s", OF fr nb]
  have "tag_cell ?h (b + sint (bt_size (mem s) b) - 4)" using nb d by (rule tag_cells(2))
  then have "load32 (mem s') (bt_footer (mem s) b) = load32 (mem s) (bt_footer (mem s) b)"
    unfolding bt_footer_def by (rule fr)
  moreover have "load32 (mem s') b = load32 (mem s) b" using fr[OF tag_cells(1)[OF nb]] .
  ultimately show "valid_block s' b" using vb by (simp add: valid_block_def h t)
  show "bt_size (mem s') b = bt_size (mem s) b" "bt_free (mem s') b = bt_free (mem s) b"
    using t(1,3) by simp_all
qed

lemma above_sentinels:
  assumes fl: "free_list s xs" and x: "x \<in> set xs"
  shows "bt_heap_start s + 16 < x"
proof -
  let ?h = "bt_heap_start s"
  have nb: "node_ok ?h x" using free_list_nodes(3)[OF fl x] .
  from free_list_nodes(4)[OF fl x] have ne: "x \<noteq> ?h" "x \<noteq> ?h + 16" by simp_all
  have n0: "node_ok ?h ?h" "node_ok ?h (?h + 16)" using free_list_nodes(1,2)[OF fl] .
  have "x + 16 \<le> ?h \<or> ?h + 16 \<le> x" using node_apart[OF nb n0(1) ne(1)] .
  moreover have "x + 16 \<le> ?h + 16 \<or> ?h + 16 + 16 \<le> x" using node_apart[OF nb n0(2) ne(2)] .
  moreover have "?h \<le> x" using nb by (simp add: node_ok_def)
  ultimately show ?thesis by linarith
qed

text \<open>Case 1: both neighbours in use.\<close>

lemma coalesce_case1:
  assumes fl: "free_list s xs"
    and vc: "valid_block s cur" and fc: "bt_free (mem s) cur"
    and nc: "cur \<notin> set xs" and ab: "bt_heap_start s + 16 < cur"
    and P: "bt_used (mem s) (bt_prev s cur)"
    and N: "bt_heap_last s = cur \<or> bt_used (mem s) (bt_next (mem s) cur)"
  shows "fst (coalesce s (bt_payload cur)) = bt_payload cur"
    and "valid_block (snd (coalesce s (bt_payload cur))) cur"
    and "bt_free (mem (snd (coalesce s (bt_payload cur)))) cur"
    and "bt_size (mem (snd (coalesce s (bt_payload cur)))) cur = bt_size (mem s) cur"
    and "free_list (snd (coalesce s (bt_payload cur))) (cur # xs)"
    and "bt_heap_last (snd (coalesce s (bt_payload cur))) = bt_heap_last s"
    and "bt_heap_start (snd (coalesce s (bt_payload cur))) = bt_heap_start s"
proof -
  have c: "coalesce s (bt_payload cur) = (bt_payload cur, lifo_add s cur)"
    using P N by (simp add: coalesce_def Let_def bt_fromptr_def bt_payload_def)
  have nb: "node_ok (bt_heap_start s) cur" using vc by (simp add: valid_block_def)
  note a = free_list_add[OF fl nb nc ab]
  note v = valid_block_frame[OF vc a(3) a(2)]
  show "fst (coalesce s (bt_payload cur)) = bt_payload cur" by (simp add: c)
  show "valid_block (snd (coalesce s (bt_payload cur))) cur" using v(1) by (simp add: c)
  show "bt_free (mem (snd (coalesce s (bt_payload cur)))) cur" using v(3) fc by (simp add: c)
  show "bt_size (mem (snd (coalesce s (bt_payload cur)))) cur = bt_size (mem s) cur"
    using v(2) by (simp add: c)
  show "free_list (snd (coalesce s (bt_payload cur))) (cur # xs)" using a(1) by (simp add: c)
  show "bt_heap_last (snd (coalesce s (bt_payload cur))) = bt_heap_last s"
    "bt_heap_start (snd (coalesce s (bt_payload cur))) = bt_heap_start s"
    using a(3,4) by (simp_all add: c)
qed

lemma bt_free_iff: "bt_free m x \<longleftrightarrow> \<not> bt_used m x"
  by (simp add: bt_free_def bt_used_def)

text \<open>
  The end of every merging case: the two tags of the merged block are written (in
  either order) and the block is put at the head of the free list.
\<close>

lemma merge_finish:
  fixes sz :: size_t
  assumes fl: "free_list s0 ys" and h: "bt_heap_start s0 = h"
    and nb: "node_ok h b" and fresh: "b \<notin> set ys" and ab: "h + 16 < b"
    and sz: "uint sz = n" "16 \<le> n" "16 dvd n" "b + n < h + 2 ^ 31"
    and t12: "(t1 = b \<and> t2 = b + n - 4) \<or> (t1 = b + n - 4 \<and> t2 = b)"
  defines "m3 \<equiv> bt_make (bt_make (mem s0) t1 sz FREE) t2 sz FREE"
  defines "s1 \<equiv> lifo_add (s0\<lparr>mem := m3\<rparr>) b"
  shows "valid_block s1 b" "bt_free (mem s1) b" "sint (bt_size (mem s1) b) = n"
    "free_list s1 (b # ys)" "bt_heap_last s1 = bt_heap_last s0" "bt_heap_start s1 = h"
    "load32 m3 b = ucast sz OR flag_bits FREE"
proof -
  have tb: "tag_cell h b" using nb by (rule tag_cells(1))
  have tf: "tag_cell h (b + n - 4)" using nb sz(3) by (rule tag_cells(2))
  have ne: "b \<noteq> b + n - 4" using sz(2) by simp
  have l3: "load32 m3 b = ucast sz OR flag_bits FREE"
    "load32 m3 (b + n - 4) = ucast sz OR flag_bits FREE"
    using t12 ne unfolding m3_def
    by (auto simp: load32_bt_make[OF tb tb] load32_bt_make[OF tb tf]
        load32_bt_make[OF tf tb] load32_bt_make[OF tf tf])
  show "load32 m3 b = ucast sz OR flag_bits FREE" by (rule l3)
  have t1: "tag_cell h t1" and t2: "tag_cell h t2" using t12 tb tf by auto
  have fla: "free_list (s0\<lparr>mem := bt_make (mem s0) t1 sz FREE\<rparr>) ys"
    using free_list_bt_make[OF fl, where t = t1] t1 h by simp
  have fl3: "free_list (s0\<lparr>mem := m3\<rparr>) ys"
    unfolding m3_def using free_list_bt_make[OF fla, where t = t2] t2 h by simp
  have bh3: "bt_heap_start (s0\<lparr>mem := m3\<rparr>) = h" "mem (s0\<lparr>mem := m3\<rparr>) = m3"
    using h by simp_all
  note v3 = valid_block_tags[OF bh3 nb l3 sz]
  have nb3: "node_ok (bt_heap_start (s0\<lparr>mem := m3\<rparr>)) b" using nb h by simp
  have ab3: "bt_heap_start (s0\<lparr>mem := m3\<rparr>) + 16 < b" using ab h by simp
  note a = free_list_add[OF fl3 nb3 fresh ab3]
  have v3': "valid_block (s0\<lparr>mem := m3\<rparr>) b" using v3 by simp
  note v = valid_block_frame[OF v3' a(3) a(2)]
  show "valid_block s1 b" unfolding s1_def by (rule v(1))
  show "bt_free (mem s1) b" unfolding s1_def using v(3) v3 by simp
  show "sint (bt_size (mem s1) b) = n" unfolding s1_def using v(2) v3 by simp
  show "free_list s1 (b # ys)" unfolding s1_def by (rule a(1))
  show "bt_heap_last s1 = bt_heap_last s0" unfolding s1_def using a(4) by simp
  show "bt_heap_start s1 = h" unfolding s1_def using a(3) h by simp
qed

text \<open>Case 2: only the successor is free.\<close>

lemma coalesce_case2:
  assumes fl: "free_list s xs"
    and vc: "valid_block s cur"
    and nc: "cur \<notin> set xs" and ab: "bt_heap_start s + 16 < cur"
    and P: "bt_used (mem s) (bt_prev s cur)"
    and N: "bt_heap_last s \<noteq> cur" "\<not> bt_used (mem s) (bt_next (mem s) cur)"
    and vn: "valid_block s (bt_next (mem s) cur)" and mn: "bt_next (mem s) cur \<in> set xs"
  defines "r \<equiv> coalesce s (bt_payload cur)"
  shows "fst r = bt_payload cur"
    and "valid_block (snd r) cur"
    and "bt_free (mem (snd r)) cur"
    and "sint (bt_size (mem (snd r)) cur) =
           sint (bt_size (mem s) cur) + sint (bt_size (mem s) (bt_next (mem s) cur))"
    and "free_list (snd r) (cur # remove1 (bt_next (mem s) cur) xs)"
    and "bt_heap_last (snd r) =
           (if bt_heap_last s = bt_next (mem s) cur then cur else bt_heap_last s)"
    and "bt_heap_start (snd r) = bt_heap_start s"
proof -
  define h where "h = bt_heap_start s"
  define nx where "nx = bt_next (mem s) cur"
  define c where "c = sint (bt_size (mem s) cur)"
  define n where "n = sint (bt_size (mem s) nx)"
  define sz where "sz = (scast (bt_size (mem s) cur) + scast (bt_size (mem s) nx) :: size_t)"
  have nb: "node_ok h cur" and c16: "16 \<le> c" and cd: "16 dvd c"
    using vc by (simp_all add: valid_block_def h_def c_def)
  have n16: "16 \<le> n" and nd: "16 dvd n" and nbd: "nx + n < h + 2 ^ 31"
    using vn by (simp_all add: valid_block_def h_def n_def nx_def)
  have nxe: "nx = cur + c" unfolding nx_def c_def using vc by (rule valid_block_next)
  have usz: "uint sz = c + n"
    unfolding sz_def c_def n_def using c16 n16 by (intro uint_add_scast) (simp_all add: c_def n_def)
  define m1 where "m1 = lifo_connect (mem s) (lifo_prev (mem s) nx) (lifo_next (mem s) nx)"
  define m2 where "m2 = bt_make m1 cur sz FREE"
  define m3 where "m3 = bt_make m2 (cur + (c + n) - 4) sz FREE"
  define s1 where "s1 = lifo_add (s\<lparr>mem := m3\<rparr>) cur"
  have ul: "free_list (s\<lparr>mem := m1\<rparr>) (remove1 nx xs)"
    using free_list_unlink(1)[OF fl mn] by (simp add: m1_def nx_def)
  have tb: "tag_cell h cur" using nb by (rule tag_cells(1))
  have l2: "load32 m2 cur = ucast sz OR flag_bits FREE"
    unfolding m2_def by (simp add: load32_bt_make[OF tb tb])
  have bound: "cur + (c + n) < h + 2 ^ 31" using nbd nxe by simp
  have s31: "c + n < 2 ^ 31" "c + n \<noteq> 0" using bound nb c16 n16 by (auto simp: node_ok_def)
  have sd: "16 dvd (c + n)" using cd nd by (rule dvd_add)
  have f2: "bt_footer m2 cur = cur + (c + n) - 4"
    using tag_decode(4)[OF l2 usz s31(1) sd s31(2)] .
  have fresh: "cur \<notin> set (remove1 nx xs)" using nc by (meson notin_set_remove1)
  have h1: "bt_heap_start (s\<lparr>mem := m1\<rparr>) = h" by (simp add: h_def)
  note mf = merge_finish[OF ul h1 nb fresh ab[folded h_def] usz _ sd bound, of cur "cur + (c + n) - 4"]
  have mf': "valid_block s1 cur" "bt_free (mem s1) cur" "sint (bt_size (mem s1) cur) = c + n"
    "free_list s1 (cur # remove1 nx xs)" "bt_heap_last s1 = bt_heap_last s" "bt_heap_start s1 = h"
    using mf c16 n16 by (simp_all add: s1_def m3_def m2_def)
  have r: "r = (bt_payload cur, if bt_heap_last s1 = nx then s1\<lparr>bt_heap_last := cur\<rparr> else s1)"
    using P N
    unfolding r_def coalesce_def Let_def
    by (simp add: bt_fromptr_def bt_payload_def bt_free_iff nx_def[symmetric] sz_def[symmetric]
        m1_def[symmetric] m2_def[symmetric] f2 m3_def[symmetric] s1_def[symmetric])
  have eq: "mem (snd r) = mem s1" "bt_heap_start (snd r) = bt_heap_start s1"
    unfolding r by simp_all
  show "fst r = bt_payload cur" by (simp add: r)
  show "valid_block (snd r) cur" using mf'(1) valid_block_cong[OF eq] by simp
  show "bt_free (mem (snd r)) cur" using mf'(2) eq by simp
  show "sint (bt_size (mem (snd r)) cur) =
           sint (bt_size (mem s) cur) + sint (bt_size (mem s) (bt_next (mem s) cur))"
    using mf'(3) eq by (simp add: c_def n_def nx_def)
  show "free_list (snd r) (cur # remove1 (bt_next (mem s) cur) xs)"
    using mf'(4) free_list_cong[OF eq] by (simp add: nx_def)
  show "bt_heap_last (snd r) =
           (if bt_heap_last s = bt_next (mem s) cur then cur else bt_heap_last s)"
    unfolding r using mf'(5) by (simp add: nx_def)
  show "bt_heap_start (snd r) = bt_heap_start s" using eq mf'(6) by (simp add: h_def)
qed

text \<open>Case 3: only the predecessor is free.\<close>

lemma coalesce_case3:
  assumes fl: "free_list s xs"
    and vc: "valid_block s cur"
    and P: "\<not> bt_used (mem s) (bt_prev s cur)"
    and N: "bt_heap_last s = cur \<or> bt_used (mem s) (bt_next (mem s) cur)"
    and vp: "valid_block s (bt_prev s cur)" and mp: "bt_prev s cur \<in> set xs"
    and adj: "bt_next (mem s) (bt_prev s cur) = cur"
  defines "r \<equiv> coalesce s (bt_payload cur)"
  shows "fst r = bt_payload (bt_prev s cur)"
    and "valid_block (snd r) (bt_prev s cur)"
    and "bt_free (mem (snd r)) (bt_prev s cur)"
    and "sint (bt_size (mem (snd r)) (bt_prev s cur)) =
           sint (bt_size (mem s) cur) + sint (bt_size (mem s) (bt_prev s cur))"
    and "free_list (snd r) (bt_prev s cur # remove1 (bt_prev s cur) xs)"
    and "bt_heap_last (snd r) =
           (if bt_heap_last s = cur then bt_prev s cur else bt_heap_last s)"
    and "bt_heap_start (snd r) = bt_heap_start s"
proof -
  define h where "h = bt_heap_start s"
  define pv where "pv = bt_prev s cur"
  define c where "c = sint (bt_size (mem s) cur)"
  define p where "p = sint (bt_size (mem s) pv)"
  define sz where "sz = (scast (bt_size (mem s) cur) + scast (bt_size (mem s) pv) :: size_t)"
  have nb: "node_ok h cur" and c16: "16 \<le> c" and cd: "16 dvd c" and cbd: "cur + c < h + 2 ^ 31"
    using vc by (simp_all add: valid_block_def h_def c_def)
  have np: "node_ok h pv" and p16: "16 \<le> p" and pd: "16 dvd p"
    using vp by (simp_all add: valid_block_def h_def p_def pv_def)
  have pe: "pv + p = cur"
    using valid_block_next[OF vp] adj by (simp add: pv_def p_def)
  have usz: "uint sz = c + p"
    unfolding sz_def c_def p_def using c16 p16 by (intro uint_add_scast) (simp_all add: c_def p_def)
  define m1 where "m1 = lifo_connect (mem s) (lifo_prev (mem s) pv) (lifo_next (mem s) pv)"
  define m2 where "m2 = bt_make m1 (pv + (c + p) - 4) sz FREE"
  define m3 where "m3 = bt_make m2 pv sz FREE"
  define s1 where "s1 = lifo_add (s\<lparr>mem := m3\<rparr>) pv"
  have ul: "free_list (s\<lparr>mem := m1\<rparr>) (remove1 pv xs)"
    and t1: "\<And>t. tag_cell h t \<Longrightarrow> load32 m1 t = load32 (mem s) t"
    using free_list_unlink[OF fl mp] by (simp_all add: m1_def pv_def h_def)
  have f1: "bt_footer m1 cur = pv + (c + p) - 4"
    using tags_frame(4)[of h m1 "mem s", OF t1 nb] pe by (simp add: bt_footer_def c_def)
  have bound: "pv + (c + p) < h + 2 ^ 31" using cbd pe by simp
  have sd: "16 dvd (c + p)" using cd pd by (rule dvd_add)
  have s16: "16 \<le> c + p" using c16 p16 by simp
  have fresh: "pv \<notin> set (remove1 pv xs)" using free_list_nodes(5)[OF fl] by simp
  have ab: "h + 16 < pv" using above_sentinels[OF fl mp] by (simp add: h_def pv_def)
  have h1: "bt_heap_start (s\<lparr>mem := m1\<rparr>) = h" by (simp add: h_def)
  note mf = merge_finish[OF ul h1 np fresh ab usz s16 sd bound, of "pv + (c + p) - 4" pv]
  have mf': "valid_block s1 pv" "bt_free (mem s1) pv" "sint (bt_size (mem s1) pv) = c + p"
    "free_list s1 (pv # remove1 pv xs)" "bt_heap_last s1 = bt_heap_last s" "bt_heap_start s1 = h"
    using mf by (simp_all add: s1_def m3_def m2_def)
  have r: "r = (bt_payload pv, if bt_heap_last s1 = cur then s1\<lparr>bt_heap_last := pv\<rparr> else s1)"
    using P N
    unfolding r_def coalesce_def Let_def
    by (simp add: bt_fromptr_def bt_payload_def bt_free_iff pv_def[symmetric] sz_def[symmetric]
        m1_def[symmetric] f1 m2_def[symmetric] m3_def[symmetric] s1_def[symmetric])
  have eq: "mem (snd r) = mem s1" "bt_heap_start (snd r) = bt_heap_start s1"
    unfolding r by simp_all
  show "fst r = bt_payload (bt_prev s cur)" by (simp add: r pv_def)
  show "valid_block (snd r) (bt_prev s cur)"
    using mf'(1) valid_block_cong[OF eq] by (simp add: pv_def)
  show "bt_free (mem (snd r)) (bt_prev s cur)" using mf'(2) eq by (simp add: pv_def)
  show "sint (bt_size (mem (snd r)) (bt_prev s cur)) =
           sint (bt_size (mem s) cur) + sint (bt_size (mem s) (bt_prev s cur))"
    using mf'(3) eq by (simp add: c_def p_def pv_def)
  show "free_list (snd r) (bt_prev s cur # remove1 (bt_prev s cur) xs)"
    using mf'(4) free_list_cong[OF eq] by (simp add: pv_def)
  show "bt_heap_last (snd r) =
           (if bt_heap_last s = cur then bt_prev s cur else bt_heap_last s)"
    unfolding r using mf'(5) by (simp add: pv_def)
  show "bt_heap_start (snd r) = bt_heap_start s" using eq mf'(6) by (simp add: h_def)
qed

text \<open>Case 4: both neighbours are free.\<close>

lemma coalesce_case4:
  assumes fl: "free_list s xs"
    and vc: "valid_block s cur"
    and P: "\<not> bt_used (mem s) (bt_prev s cur)"
    and N: "bt_heap_last s \<noteq> cur" "\<not> bt_used (mem s) (bt_next (mem s) cur)"
    and vp: "valid_block s (bt_prev s cur)" and mp: "bt_prev s cur \<in> set xs"
    and adj: "bt_next (mem s) (bt_prev s cur) = cur"
    and vn: "valid_block s (bt_next (mem s) cur)" and mn: "bt_next (mem s) cur \<in> set xs"
  defines "r \<equiv> coalesce s (bt_payload cur)"
  shows "fst r = bt_payload (bt_prev s cur)"
    and "valid_block (snd r) (bt_prev s cur)"
    and "bt_free (mem (snd r)) (bt_prev s cur)"
    and "sint (bt_size (mem (snd r)) (bt_prev s cur)) =
           sint (bt_size (mem s) cur) + sint (bt_size (mem s) (bt_prev s cur)) +
           sint (bt_size (mem s) (bt_next (mem s) cur))"
    and "free_list (snd r)
           (bt_prev s cur # remove1 (bt_next (mem s) cur) (remove1 (bt_prev s cur) xs))"
    and "bt_heap_last (snd r) =
           (if bt_heap_last s = bt_next (mem s) cur then bt_prev s cur else bt_heap_last s)"
    and "bt_heap_start (snd r) = bt_heap_start s"
proof -
  define h where "h = bt_heap_start s"
  define pv where "pv = bt_prev s cur"
  define nx where "nx = bt_next (mem s) cur"
  define c where "c = sint (bt_size (mem s) cur)"
  define p where "p = sint (bt_size (mem s) pv)"
  define n where "n = sint (bt_size (mem s) nx)"
  define sz where "sz = (scast (bt_size (mem s) cur) +
                         scast (bt_size (mem s) pv + bt_size (mem s) nx) :: size_t)"
  have nb: "node_ok h cur" and c16: "16 \<le> c" and cd: "16 dvd c"
    using vc by (simp_all add: valid_block_def h_def c_def)
  have np: "node_ok h pv" and p16: "16 \<le> p" and pd: "16 dvd p"
    using vp by (simp_all add: valid_block_def h_def p_def pv_def)
  have nn: "node_ok h nx" and n16: "16 \<le> n" and nd: "16 dvd n" and nbd: "nx + n < h + 2 ^ 31"
    using vn by (simp_all add: valid_block_def h_def n_def nx_def)
  have pe: "pv + p = cur"
    using valid_block_next[OF vp] adj by (simp add: pv_def p_def)
  have nxe: "nx = cur + c" unfolding nx_def c_def using vc by (rule valid_block_next)
  have bound: "pv + (c + p + n) < h + 2 ^ 31" using nbd nxe pe by simp
  have hp: "h \<le> pv" using np by (simp add: node_ok_def)
  have pn31: "p + n < 2 ^ 31" using bound hp c16 by linarith
  have spn: "sint (bt_size (mem s) pv + bt_size (mem s) nx) = p + n"
    unfolding p_def n_def using p16 n16 pn31
    by (intro sint_add_32) (simp_all add: p_def n_def)
  have usz: "uint sz = c + p + n"
    unfolding sz_def using uint_add_scast[of "bt_size (mem s) cur"
        "bt_size (mem s) pv + bt_size (mem s) nx"] c16 p16 n16 spn
    by (simp add: c_def)
  have pn: "pv \<noteq> nx" using pe nxe p16 c16 by simp
  define m1 where "m1 = lifo_connect (mem s) (lifo_prev (mem s) pv) (lifo_next (mem s) pv)"
  define m2 where "m2 = lifo_connect m1 (lifo_prev m1 nx) (lifo_next m1 nx)"
  define m3 where "m3 = bt_make m2 pv sz FREE"
  define m4 where "m4 = bt_make m3 (pv + (c + p + n) - 4) sz FREE"
  define s1 where "s1 = lifo_add (s\<lparr>mem := m4\<rparr>) pv"
  have ul1: "free_list (s\<lparr>mem := m1\<rparr>) (remove1 pv xs)"
    and t1: "\<And>t. tag_cell h t \<Longrightarrow> load32 m1 t = load32 (mem s) t"
    using free_list_unlink[OF fl mp] by (simp_all add: m1_def pv_def h_def)
  have mn1: "nx \<in> set (remove1 pv xs)" using mn pn by (simp add: nx_def)
  have ul2: "free_list (s\<lparr>mem := m2\<rparr>) (remove1 nx (remove1 pv xs))"
    and t2: "\<And>t. tag_cell h t \<Longrightarrow> load32 m2 t = load32 m1 t"
    using free_list_unlink[OF ul1 mn1] by (simp_all add: m2_def h_def)
  have tp: "tag_cell h pv" using np by (rule tag_cells(1))
  have tn: "tag_cell h nx" using nn by (rule tag_cells(1))
  have "load32 m3 nx = load32 (mem s) nx"
    unfolding m3_def using pn t1[OF tn] t2[OF tn] by (simp add: load32_bt_make[OF tp tn])
  then have f3: "bt_footer m3 nx = pv + (c + p + n) - 4"
    using pe nxe by (simp add: bt_footer_def bt_size_def n_def)
  have sd: "16 dvd (c + p + n)" using cd pd nd by (simp add: dvd_add)
  have s16: "16 \<le> c + p + n" using c16 p16 n16 by simp
  have fresh: "pv \<notin> set (remove1 nx (remove1 pv xs))"
    using free_list_nodes(5)[OF fl] by (simp add: set_remove1_eq)
  have ab: "h + 16 < pv" using above_sentinels[OF fl mp] by (simp add: h_def pv_def)
  have h2: "bt_heap_start (s\<lparr>mem := m2\<rparr>) = h" by (simp add: h_def)
  note mf = merge_finish[OF ul2 h2 np fresh ab usz s16 sd bound, of pv "pv + (c + p + n) - 4"]
  have mf': "valid_block s1 pv" "bt_free (mem s1) pv" "sint (bt_size (mem s1) pv) = c + p + n"
    "free_list s1 (pv # remove1 nx (remove1 pv xs))" "bt_heap_last s1 = bt_heap_last s"
    "bt_heap_start s1 = h"
    using mf by (simp_all add: s1_def m4_def m3_def)
  have r: "r = (bt_payload pv, if bt_heap_last s1 = nx then s1\<lparr>bt_heap_last := pv\<rparr> else s1)"
    using P N
    unfolding r_def coalesce_def Let_def
    by (simp add: bt_fromptr_def bt_payload_def bt_free_iff pv_def[symmetric] nx_def[symmetric]
        sz_def[symmetric] m1_def[symmetric] m2_def[symmetric] m3_def[symmetric] f3
        m4_def[symmetric] s1_def[symmetric])
  have eq: "mem (snd r) = mem s1" "bt_heap_start (snd r) = bt_heap_start s1"
    unfolding r by simp_all
  show "fst r = bt_payload (bt_prev s cur)" by (simp add: r pv_def)
  show "valid_block (snd r) (bt_prev s cur)"
    using mf'(1) valid_block_cong[OF eq] by (simp add: pv_def)
  show "bt_free (mem (snd r)) (bt_prev s cur)" using mf'(2) eq by (simp add: pv_def)
  show "sint (bt_size (mem (snd r)) (bt_prev s cur)) =
           sint (bt_size (mem s) cur) + sint (bt_size (mem s) (bt_prev s cur)) +
           sint (bt_size (mem s) (bt_next (mem s) cur))"
    using mf'(3) eq by (simp add: c_def p_def n_def pv_def nx_def)
  show "free_list (snd r)
           (bt_prev s cur # remove1 (bt_next (mem s) cur) (remove1 (bt_prev s cur) xs))"
    using mf'(4) free_list_cong[OF eq] by (simp add: pv_def nx_def)
  show "bt_heap_last (snd r) =
           (if bt_heap_last s = bt_next (mem s) cur then bt_prev s cur else bt_heap_last s)"
    unfolding r using mf'(5) by (simp add: pv_def nx_def)
  show "bt_heap_start (snd r) = bt_heap_start s" using eq mf'(6) by (simp add: h_def)
qed

text \<open>The four cases of \<^verbatim>\<open>coalesce\<close> in one statement.\<close>

lemma coalesce_effect:
  assumes fl: "free_list s xs"
    and vc: "valid_block s cur" and fc: "bt_free (mem s) cur"
    and nc: "cur \<notin> set xs" and ab: "bt_heap_start s + 16 < cur"
    and hp: "\<not> bt_used (mem s) (bt_prev s cur) \<longrightarrow>
               valid_block s (bt_prev s cur) \<and> bt_prev s cur \<in> set xs \<and>
               bt_next (mem s) (bt_prev s cur) = cur"
    and hn: "bt_heap_last s \<noteq> cur \<and> \<not> bt_used (mem s) (bt_next (mem s) cur) \<longrightarrow>
               valid_block s (bt_next (mem s) cur) \<and> bt_next (mem s) cur \<in> set xs"
  shows "let prev = bt_prev s cur; next = bt_next (mem s) cur;
             P = bt_used (mem s) prev;
             N = (bt_heap_last s = cur \<or> bt_used (mem s) next);
             merged = (if P then cur else prev);
             r = coalesce s (bt_payload cur)
         in fst r = bt_payload merged \<and>
            valid_block (snd r) merged \<and> bt_free (mem (snd r)) merged \<and>
            sint (bt_size (mem (snd r)) merged) =
              sint (bt_size (mem s) cur) + (if P then 0 else sint (bt_size (mem s) prev)) +
              (if N then 0 else sint (bt_size (mem s) next)) \<and>
            free_list (snd r)
              (merged # (if N then id else remove1 next) ((if P then id else remove1 prev) xs)) \<and>
            bt_heap_last (snd r) =
              (if (\<not> N \<and> bt_heap_last s = next) \<or> (\<not> P \<and> bt_heap_last s = cur)
               then merged else bt_heap_last s) \<and>
            bt_heap_start (snd r) = bt_heap_start s"
proof -
  let ?P = "bt_used (mem s) (bt_prev s cur)"
  let ?N = "bt_heap_last s = cur \<or> bt_used (mem s) (bt_next (mem s) cur)"
  consider (c1) "?P" "?N" | (c2) "?P" "\<not> ?N" | (c3) "\<not> ?P" "?N" | (c4) "\<not> ?P" "\<not> ?N"
    by blast
  then show ?thesis
  proof cases
    case c1
    show ?thesis
      using coalesce_case1[OF fl vc fc nc ab c1] c1 by (auto simp: Let_def)
  next
    case c2
    then have N: "bt_heap_last s \<noteq> cur" "\<not> bt_used (mem s) (bt_next (mem s) cur)" by simp_all
    from hn N have vn: "valid_block s (bt_next (mem s) cur)"
      and mn: "bt_next (mem s) cur \<in> set xs" by simp_all
    show ?thesis
      using coalesce_case2[OF fl vc nc ab c2(1) N vn mn] c2(1) N by (simp add: Let_def)
  next
    case c3
    from hp c3(1) have vp: "valid_block s (bt_prev s cur)" and mp: "bt_prev s cur \<in> set xs"
      and adj: "bt_next (mem s) (bt_prev s cur) = cur" by simp_all
    show ?thesis
      using coalesce_case3[OF fl vc c3 vp mp adj] c3 by (auto simp: Let_def)
  next
    case c4
    then have N: "bt_heap_last s \<noteq> cur" "\<not> bt_used (mem s) (bt_next (mem s) cur)" by simp_all
    from hn N have vn: "valid_block s (bt_next (mem s) cur)"
      and mn: "bt_next (mem s) cur \<in> set xs" by simp_all
    from hp c4(1) have vp: "valid_block s (bt_prev s cur)" and mp: "bt_prev s cur \<in> set xs"
      and adj: "bt_next (mem s) (bt_prev s cur) = cur" by simp_all
    have ne: "bt_next (mem s) cur \<noteq> cur"
      using valid_block_next[OF vc] vc by (simp add: valid_block_def)
    show ?thesis
      using coalesce_case4[OF fl vc c4(1) N vp mp adj vn mn] c4(1) N ne by (simp add: Let_def)
  qed
qed

text \<open>
  Claim C3. Let the free list hold the blocks \<open>xs\<close> and let \<open>cur\<close> be a well-formed
  block, tagged free, that is not on the list; let a neighbour that takes part in the
  merge (a predecessor by address not in use; a successor not in use when \<open>cur\<close> is not
  topmost) be a well-formed block on the list, the predecessor ending where \<open>cur\<close>
  starts. Write \<open>P\<close> for: the predecessor is in use, and \<open>N\<close> for: \<open>cur\<close> is topmost or
  the successor is in use. Then \<^verbatim>\<open>coalesce\<close> returns the payload of the merged block,
  which starts at \<open>cur\<close> if \<open>P\<close> and at the predecessor otherwise; it is a well-formed
  free block (footer equal to header) whose size is that of \<open>cur\<close>, plus the
  predecessor's unless \<open>P\<close>, plus the successor's unless \<open>N\<close>; the free list is the
  merged block followed by the old list without the absorbed neighbours; and the
  topmost-block pointer is the merged block when the old topmost block was absorbed
  and is unchanged otherwise.
\<close>

theorem coalesce_four_cases:
  assumes fl: "free_list s xs"
    and vc: "valid_block s cur" and fc: "bt_free (mem s) cur"
    and nc: "cur \<notin> set xs" and ab: "bt_heap_start s + 16 < cur"
    and hp: "\<not> bt_used (mem s) (bt_prev s cur) \<longrightarrow>
               valid_block s (bt_prev s cur) \<and> bt_prev s cur \<in> set xs \<and>
               bt_next (mem s) (bt_prev s cur) = cur"
    and hn: "bt_heap_last s \<noteq> cur \<and> \<not> bt_used (mem s) (bt_next (mem s) cur) \<longrightarrow>
               valid_block s (bt_next (mem s) cur) \<and> bt_next (mem s) cur \<in> set xs"
  shows "let prev = bt_prev s cur; next = bt_next (mem s) cur;
             P = bt_used (mem s) prev;
             N = (bt_heap_last s = cur \<or> bt_used (mem s) next);
             merged = (if P then cur else prev);
             r = coalesce s (bt_payload cur)
         in fst r = bt_payload merged \<and>
            valid_block (snd r) merged \<and> bt_free (mem (snd r)) merged \<and>
            sint (bt_size (mem (snd r)) merged) =
              sint (bt_size (mem s) cur) + (if P then 0 else sint (bt_size (mem s) prev)) +
              (if N then 0 else sint (bt_size (mem s) next)) \<and>
            free_list (snd r)
              (merged # (if N then id else remove1 next) ((if P then id else remove1 prev) xs)) \<and>
            bt_heap_last (snd r) =
              (if (\<not> N \<and> bt_heap_last s = next) \<or> (\<not> P \<and> bt_heap_last s = cur)
               then merged else bt_heap_last s) \<and>
            bt_heap_start (snd r) = bt_heap_start s"
proof -
  let ?P = "bt_used (mem s) (bt_prev s cur)"
  let ?N = "bt_heap_last s = cur \<or> bt_used (mem s) (bt_next (mem s) cur)"
  consider (c1) "?P" "?N" | (c2) "?P" "\<not> ?N" | (c3) "\<not> ?P" "?N" | (c4) "\<not> ?P" "\<not> ?N"
    by blast
  then show ?thesis
  proof cases
    case c1
    show ?thesis
      using coalesce_case1[OF fl vc fc nc ab c1] c1 by (auto simp: Let_def)
  next
    case c2
    then have N: "bt_heap_last s \<noteq> cur" "\<not> bt_used (mem s) (bt_next (mem s) cur)" by simp_all
    from hn N have vn: "valid_block s (bt_next (mem s) cur)"
      and mn: "bt_next (mem s) cur \<in> set xs" by simp_all
    show ?thesis
      using coalesce_case2[OF fl vc nc ab c2(1) N vn mn] c2(1) N by (simp add: Let_def)
  next
    case c3
    from hp c3(1) have vp: "valid_block s (bt_prev s cur)" and mp: "bt_prev s cur \<in> set xs"
      and adj: "bt_next (mem s) (bt_prev s cur) = cur" by simp_all
    show ?thesis
      using coalesce_case3[OF fl vc c3 vp mp adj] c3 by (auto simp: Let_def)
  next
    case c4
    then have N: "bt_heap_last s \<noteq> cur" "\<not> bt_used (mem s) (bt_next (mem s) cur)" by simp_all
    from hn N have vn: "valid_block s (bt_next (mem s) cur)"
      and mn: "bt_next (mem s) cur \<in> set xs" by simp_all
    from hp c4(1) have vp: "valid_block s (bt_prev s cur)" and mp: "bt_prev s cur \<in> set xs"
      and adj: "bt_next (mem s) (bt_prev s cur) = cur" by simp_all
    have ne: "bt_next (mem s) cur \<noteq> cur"
      using valid_block_next[OF vc] vc by (simp add: valid_block_def)
    show ?thesis
      using coalesce_case4[OF fl vc c4(1) N vp mp adj vn mn] c4(1) N ne by (simp add: Let_def)
  qed
qed

text \<open>
  In \<open>demo_pre\<close> the block \<open>g1\<close> at 4172 has just been tagged free, between the free
  blocks \<open>a\<close> at 4140 and \<open>b\<close> at 4220: the three become one free block of 144 bytes at
  4140, first in the free list, and \<open>a\<close> and \<open>b\<close> leave the list.
\<close>

theorem coalesce_four_cases_witness:
  "free_list demo_pre [4220, 4300, 4140] \<and> valid_block demo_pre 4172 \<and>
   bt_free (mem demo_pre) 4172 \<and>
   bt_prev demo_pre 4172 = 4140 \<and> bt_free (mem demo_pre) 4140 \<and>
   bt_next (mem demo_pre) 4172 = 4220 \<and> bt_free (mem demo_pre) 4220 \<and>
   bt_heap_last demo_pre = 4348 \<and>
   coalesce demo_pre (bt_payload 4172) = (bt_payload 4140, demo_merged) \<and>
   valid_block demo_merged 4140 \<and> bt_free (mem demo_merged) 4140 \<and>
   sint (bt_size (mem demo_merged) 4140) = 32 + 48 + 64 \<and>
   free_list demo_merged [4140, 4300] \<and> bt_heap_last demo_merged = 4348"
  using coalesce_four_cases[of demo_pre "[4220, 4300, 4140]" 4172]
  by (simp add: heap_defs demo_pre_def demo_merged_def eval_defs cong: let_weak_cong)

section \<open>Growing in place\<close>

lemma realloc_asize_dvd: "16 dvd uint (realloc_asize sz)"
proof (cases "sz \<le> 8")
  case True
  then show ?thesis by (simp add: realloc_asize_def)
next
  case False
  have "(16 :: int) dvd 2 ^ 64" by simp
  then have "16 dvd (16 * uint ((sz + 8 + 16 - 1) div 16)) mod 2 ^ 64"
    by (simp only: dvd_mod_iff) simp
  with False show ?thesis
    by (simp add: realloc_asize_def ALIGNMENT_def uint_word_ariths)
qed

text \<open>
  Claim C7. Let the free list hold the blocks \<open>xs\<close>, the size be nonzero, the block of
  \<open>old_ptr\<close> be well formed and not topmost, its successor by address a well-formed
  free block on the list with no other list entry inside it; let the needed size
  exceed the size of the block and not exceed the two sizes together. Then
  \<^verbatim>\<open>realloc\<close> returns \<open>old_ptr\<close> with the arena as large as before. The block stays in
  use. If the leftover of the two blocks is at least 16 bytes, the block has the needed
  size, the leftover is a well-formed free block after it that takes the successor's
  position in the free list, and the topmost-block pointer moves to the leftover when
  it was the successor. Otherwise the block has the size of the two together, the
  successor leaves the free list, and the topmost-block pointer moves to the block when
  it was the successor. (A well-formed block has a positive address, so \<open>old_ptr\<close> is
  not \<^verbatim>\<open>NULL\<close>.)
\<close>

theorem realloc_grow_in_place:
  assumes fl: "free_list s xs"
    and nz: "sz \<noteq> 0"
    and vc: "valid_block s (bt_fromptr old_ptr)"
    and nl: "bt_fromptr old_ptr \<noteq> bt_heap_last s"
    and vn: "valid_block s (bt_next (mem s) (bt_fromptr old_ptr))"
    and fn: "bt_free (mem s) (bt_next (mem s) (bt_fromptr old_ptr))"
    and mn: "bt_next (mem s) (bt_fromptr old_ptr) \<in> set xs"
    and inside: "\<forall>x \<in> set xs. x \<le> bt_next (mem s) (bt_fromptr old_ptr) \<or>
                   bt_next (mem s) (bt_fromptr old_ptr) +
                   sint (bt_size (mem s) (bt_next (mem s) (bt_fromptr old_ptr))) \<le> x"
    and grow: "block_size (mem s) (bt_fromptr old_ptr) < realloc_asize sz"
    and fit: "realloc_asize sz \<le> block_size (mem s) (bt_fromptr old_ptr) +
                block_size (mem s) (bt_next (mem s) (bt_fromptr old_ptr))"
  shows "\<exists>s'. realloc s old_ptr sz = Some (old_ptr, s') \<and>
           (let cur = bt_fromptr old_ptr; next = bt_next (mem s) cur;
                total = sint (bt_size (mem s) cur) + sint (bt_size (mem s) next);
                a = uint (realloc_asize sz)
            in valid_block s' cur \<and> bt_used (mem s') cur \<and>
               (if 16 \<le> total - a then
                  sint (bt_size (mem s') cur) = a \<and>
                  valid_block s' (cur + a) \<and> bt_free (mem s') (cur + a) \<and>
                  sint (bt_size (mem s') (cur + a)) = total - a \<and>
                  free_list s' (map (\<lambda>x. if x = next then cur + a else x) xs) \<and>
                  bt_heap_last s' = (if bt_heap_last s = next then cur + a else bt_heap_last s)
                else
                  sint (bt_size (mem s') cur) = total \<and>
                  free_list s' (remove1 next xs) \<and>
                  bt_heap_last s' = (if bt_heap_last s = next then cur else bt_heap_last s)) \<and>
               bt_heap_start s' = bt_heap_start s \<and> mem_brk s' = mem_brk s \<and>
               mem_max_addr s' = mem_max_addr s)"
proof -
  define h where "h = bt_heap_start s"
  define cur where "cur = bt_fromptr old_ptr"
  define nx where "nx = bt_next (mem s) cur"
  define c where "c = sint (bt_size (mem s) cur)"
  define n where "n = sint (bt_size (mem s) nx)"
  define asize where "asize = realloc_asize sz"
  define a where "a = uint asize"
  define old where "old = (scast (bt_size (mem s) cur) :: size_t)"
  define new where "new = old + (scast (bt_size (mem s) nx) :: size_t)"
  note vc' = vc[folded cur_def] and vn' = vn[folded cur_def nx_def]
  have nb: "node_ok h cur" and c16: "16 \<le> c" and cd: "16 dvd c"
    using vc' by (simp_all add: valid_block_def h_def c_def)
  have nn: "node_ok h nx" and n16: "16 \<le> n" and nd: "16 dvd n" and nbd: "nx + n < h + 2 ^ 31"
    using vn' by (simp_all add: valid_block_def h_def n_def nx_def)
  have nxe: "nx = cur + c" unfolding nx_def c_def using vc' by (rule valid_block_next)
  have h0: "0 < h" using fl by (simp add: free_list_def h_def)
  have hc: "h \<le> cur" using nb by (simp add: node_ok_def)
  have pn: "old_ptr \<noteq> NULL" using hc h0 by (simp add: cur_def bt_fromptr_def)
  have nx0: "nx \<noteq> NULL" using nxe hc h0 c16 by simp
  have uold: "uint old = c" unfolding old_def c_def using c16
    by (intro uint_scast_nonneg) (simp add: c_def)
  have unew: "uint new = c + n" unfolding new_def old_def c_def n_def using c16 n16
    by (intro uint_add_scast) (simp_all add: c_def n_def)
  have ca: "c < a" using grow uold
    by (simp add: word_less_def block_size_def a_def asize_def old_def cur_def)
  have le: "asize \<le> new" using fit
    by (simp add: block_size_def asize_def new_def old_def cur_def nx_def)
  then have an: "a \<le> c + n" using unew by (simp add: word_le_def a_def)
  have usub: "uint (new - asize) = c + n - a"
    using le unew by (simp add: uint_minus_simple_alt a_def)
  have cond: "(16 \<le> new - asize) \<longleftrightarrow> 16 \<le> c + n - a"
    unfolding word_le_def usub by simp
  have ad: "16 dvd a" unfolding a_def asize_def by (rule realloc_asize_dvd)
  have a16: "16 \<le> a" using ca c16 by simp
  have bound: "cur + (c + n) < h + 2 ^ 31" using nbd nxe by simp
  have rn: "realloc_next s cur = (nx, new)"
    using nl fn by (simp add: realloc_next_def Let_def cur_def nx_def new_def old_def)
  have ne: "asize \<noteq> old" "\<not> asize < old"
    using ca uold by (auto simp: a_def word_less_def)
  have tb: "tag_cell h cur" using nb by (rule tag_cells(1))
  have tfa: "tag_cell h (cur + a - 4)" using nb ad by (rule tag_cells(2))
  have td: "16 dvd (c + n)" using cd nd by (rule dvd_add)
  have tft: "tag_cell h (cur + (c + n) - 4)" using nb td by (rule tag_cells(2))
  have ab: "h + 16 < nx" using above_sentinels[OF fl mn] by (simp add: h_def nx_def cur_def)
  show ?thesis
  proof (cases "16 \<le> c + n - a")
    case True
    have nna: "node_ok h (cur + a)" using nb ad a16 bound True by (intro node_ok_add) auto
    have tn: "tag_cell h (cur + a)" using nna by (rule tag_cells(1))
    have rd: "16 dvd (c + n - a)" using td ad by (rule dvd_diff)
    define m1 where "m1 = bt_make (mem s) cur asize USED"
    have l1: "load32 m1 cur = ucast asize OR flag_bits USED"
      unfolding m1_def by (simp add: load32_bt_make[OF tb tb])
    have a31: "a < 2 ^ 31" "a \<noteq> 0" using an bound hc a16 by auto
    have n1: "bt_next m1 cur = cur + a"
      using tag_decode(5)[OF l1 _ a31(1) ad a31(2)] by (simp add: a_def)
    have fl1: "free_list (s\<lparr>mem := m1\<rparr>) xs"
      unfolding m1_def using free_list_bt_make[OF fl, where t = cur] tb by (simp add: h_def)
    have fresh: "cur + a \<notin> set xs"
    proof
      assume "cur + a \<in> set xs"
      with inside have "cur + a \<le> nx \<or> nx + n \<le> cur + a"
        by (auto simp: n_def nx_def cur_def)
      with ca True nxe show False by simp
    qed
    have aba: "h + 16 < cur + a" using ab nxe ca by simp
    define m2 where "m2 = lifo_connect m1 (lifo_prev m1 nx) (cur + a)"
    define m3 where "m3 = lifo_connect m2 (cur + a) (lifo_next m2 nx)"
    have mn': "nx \<in> set xs" using mn by (simp add: nx_def cur_def)
    have rp: "free_list (s\<lparr>mem := m3\<rparr>) (map (\<lambda>y. if y = nx then cur + a else y) xs)"
      and t3: "\<And>t. tag_cell h t \<Longrightarrow> load32 m3 t = load32 m1 t"
      using free_list_replace[OF fl1 mn', of "cur + a"] nna fresh aba
      by (simp_all add: h_def m2_def m3_def)
    have f3: "bt_footer m3 cur = cur + a - 4"
      using tag_decode(4)[OF l1 _ a31(1) ad a31(2)] t3[OF tb]
      by (simp add: a_def bt_footer_def bt_size_def)
    define m4 where "m4 = bt_make m3 (cur + a - 4) asize USED"
    define m5 where "m5 = bt_make m4 (cur + a) (new - asize) FREE"
    define m6 where "m6 = bt_make m5 (cur + (c + n) - 4) (new - asize) FREE"
    have l5: "load32 m5 (cur + a) = ucast (new - asize) OR flag_bits FREE"
      unfolding m5_def by (simp add: load32_bt_make[OF tn tn])
    have r31: "c + n - a < 2 ^ 31" "c + n - a \<noteq> 0" using a16 True bound hc by auto
    have f5: "bt_footer m5 (cur + a) = cur + (c + n) - 4"
      using tag_decode(4)[OF l5 usub r31(1) rd r31(2)] by simp
    have l6: "load32 m6 cur = ucast asize OR flag_bits USED"
      "load32 m6 (cur + a - 4) = ucast asize OR flag_bits USED"
      "load32 m6 (cur + a) = ucast (new - asize) OR flag_bits FREE"
      "load32 m6 (cur + (c + n) - 4) = ucast (new - asize) OR flag_bits FREE"
      unfolding m6_def m5_def m4_def using a16 True l1 t3[OF tb]
      by (simp_all add: load32_bt_make[OF tft tb] load32_bt_make[OF tft tfa]
          load32_bt_make[OF tft tn] load32_bt_make[OF tft tft]
          load32_bt_make[OF tn tb] load32_bt_make[OF tn tfa] load32_bt_make[OF tn tn]
          load32_bt_make[OF tfa tb] load32_bt_make[OF tfa tfa])
    have fl4: "free_list (s\<lparr>mem := m4\<rparr>) (map (\<lambda>y. if y = nx then cur + a else y) xs)"
      unfolding m4_def using free_list_bt_make[OF rp, where t = "cur + a - 4"] tfa
      by (simp add: h_def)
    have fl5: "free_list (s\<lparr>mem := m5\<rparr>) (map (\<lambda>y. if y = nx then cur + a else y) xs)"
      unfolding m5_def using free_list_bt_make[OF fl4, where t = "cur + a"] tn
      by (simp add: h_def)
    have fl6: "free_list (s\<lparr>mem := m6\<rparr>) (map (\<lambda>y. if y = nx then cur + a else y) xs)"
      unfolding m6_def using free_list_bt_make[OF fl5, where t = "cur + (c + n) - 4"] tft
      by (simp add: h_def)
    define s' where "s' = (if nx = bt_heap_last s then s\<lparr>mem := m6, bt_heap_last := cur + a\<rparr>
                           else s\<lparr>mem := m6\<rparr>)"
    have rl: "realloc s old_ptr sz = Some (old_ptr, s')"
      using nz pn ne nx0 le True cond
      unfolding realloc_def Let_def cur_def[symmetric] asize_def[symmetric] old_def[symmetric] rn prod.case
        m1_def[symmetric] n1 m2_def[symmetric] m3_def[symmetric] f3 m4_def[symmetric]
        m5_def[symmetric] f5 m6_def[symmetric] s'_def
      by simp
    have meq: "mem s' = m6" "bt_heap_start s' = h"
      "bt_heap_last s' = (if bt_heap_last s = nx then cur + a else bt_heap_last s)"
      "mem_brk s' = mem_brk s" "mem_max_addr s' = mem_max_addr s"
      unfolding s'_def by (auto simp: h_def)
    have bh6: "bt_heap_start (s\<lparr>mem := m6\<rparr>) = h" "mem (s\<lparr>mem := m6\<rparr>) = m6"
      by (simp_all add: h_def)
    have ua: "uint asize = a" by (simp add: a_def)
    have ba: "cur + a < h + 2 ^ 31" using an bound by linarith
    have v1: "valid_block (s\<lparr>mem := m6\<rparr>) cur" "sint (bt_size m6 cur) = a" "bt_used m6 cur"
      using valid_block_tags[OF bh6 nb l6(1,2) ua a16 ad ba] by simp_all
    have bc: "cur + a + (c + n - a) < h + 2 ^ 31" "cur + a + (c + n - a) - 4 = cur + (c + n) - 4"
      using bound by simp_all
    have v2: "valid_block (s\<lparr>mem := m6\<rparr>) (cur + a)" "sint (bt_size m6 (cur + a)) = c + n - a"
      "bt_free m6 (cur + a)"
      using valid_block_tags[OF bh6 nna l6(3) l6(4)[folded bc(2)] usub True rd bc(1)] by simp_all
    have "valid_block s' cur" "valid_block s' (cur + a)"
      "free_list s' (map (\<lambda>y. if y = nx then cur + a else y) xs)"
      using v1(1) v2(1) fl6 valid_block_cong[of s' "s\<lparr>mem := m6\<rparr>"]
        free_list_cong[of s' "s\<lparr>mem := m6\<rparr>"] meq
      by (simp_all add: h_def)
    with v1(2,3) v2(2,3) meq True rl show ?thesis
      unfolding c_def n_def a_def h_def asize_def nx_def cur_def by (simp add: Let_def)
  next
    case False
    define m1 where "m1 = lifo_connect (mem s) (lifo_prev (mem s) nx) (lifo_next (mem s) nx)"
    define m2 where "m2 = bt_make m1 cur new USED"
    define m3 where "m3 = bt_make m2 (cur + (c + n) - 4) new USED"
    have mn': "nx \<in> set xs" using mn by (simp add: nx_def cur_def)
    have ul: "free_list (s\<lparr>mem := m1\<rparr>) (remove1 nx xs)"
      using free_list_unlink(1)[OF fl mn'] by (simp add: m1_def)
    have l2: "load32 m2 cur = ucast new OR flag_bits USED"
      unfolding m2_def by (simp add: load32_bt_make[OF tb tb])
    have t31: "c + n < 2 ^ 31" "c + n \<noteq> 0" using bound hc c16 n16 by auto
    have f2: "bt_footer m2 cur = cur + (c + n) - 4"
      using tag_decode(4)[OF l2 unew t31(1) td t31(2)] .
    have l3: "load32 m3 cur = ucast new OR flag_bits USED"
      "load32 m3 (cur + (c + n) - 4) = ucast new OR flag_bits USED"
      unfolding m3_def using c16 n16 l2
      by (simp_all add: load32_bt_make[OF tft tb] load32_bt_make[OF tft tft])
    have fl2: "free_list (s\<lparr>mem := m2\<rparr>) (remove1 nx xs)"
      unfolding m2_def using free_list_bt_make[OF ul, where t = cur] tb by (simp add: h_def)
    have fl3: "free_list (s\<lparr>mem := m3\<rparr>) (remove1 nx xs)"
      unfolding m3_def using free_list_bt_make[OF fl2, where t = "cur + (c + n) - 4"] tft
      by (simp add: h_def)
    define s' where "s' = (if nx = bt_heap_last s then s\<lparr>mem := m3, bt_heap_last := cur\<rparr>
                           else s\<lparr>mem := m3\<rparr>)"
    have rl: "realloc s old_ptr sz = Some (old_ptr, s')"
      using nz pn ne nx0 le False cond
      unfolding realloc_def Let_def cur_def[symmetric] asize_def[symmetric] old_def[symmetric] rn prod.case
        m1_def[symmetric] m2_def[symmetric] f2 m3_def[symmetric] s'_def
      by simp
    have meq: "mem s' = m3" "bt_heap_start s' = h"
      "bt_heap_last s' = (if bt_heap_last s = nx then cur else bt_heap_last s)"
      "mem_brk s' = mem_brk s" "mem_max_addr s' = mem_max_addr s"
      unfolding s'_def by (auto simp: h_def)
    have bh3: "bt_heap_start (s\<lparr>mem := m3\<rparr>) = h" "mem (s\<lparr>mem := m3\<rparr>) = m3"
      by (simp_all add: h_def)
    have t16: "16 \<le> c + n" using c16 n16 by simp
    have v: "valid_block (s\<lparr>mem := m3\<rparr>) cur" "sint (bt_size m3 cur) = c + n" "bt_used m3 cur"
      using valid_block_tags[OF bh3 nb l3 unew t16 td bound] by simp_all
    have "valid_block s' cur" "free_list s' (remove1 nx xs)"
      using v(1) fl3 valid_block_cong[of s' "s\<lparr>mem := m3\<rparr>"]
        free_list_cong[of s' "s\<lparr>mem := m3\<rparr>"] meq
      by (simp_all add: h_def)
    with v(2,3) meq False rl show ?thesis
      unfolding c_def n_def a_def h_def asize_def nx_def cur_def by (simp add: Let_def)
  qed
qed

text \<open>
  In \<open>demo9\<close> the block \<open>g1\<close> of 48 bytes at 4172 is followed by the free block \<open>b\<close> of
  64 bytes: \<^verbatim>\<open>realloc(g1, 88)\<close> needs 96 bytes, and the leftover of 16 bytes at 4268
  stands first in the free list, where \<open>b\<close> stood.
\<close>

theorem realloc_grow_in_place_witness:
  "free_list demo9 [4220, 4300, 4140] \<and> valid_block demo9 (bt_fromptr 4176) \<and>
   bt_next (mem demo9) (bt_fromptr 4176) = 4220 \<and> valid_block demo9 4220 \<and>
   bt_free (mem demo9) 4220 \<and> bt_heap_last demo9 = 4348 \<and>
   block_size (mem demo9) (bt_fromptr 4176) = 48 \<and> block_size (mem demo9) 4220 = 64 \<and>
   realloc_asize 88 = 96 \<and>
   realloc demo9 4176 88 = Some (4176, demo_grown) \<and>
   valid_block demo_grown 4172 \<and> bt_used (mem demo_grown) 4172 \<and>
   sint (bt_size (mem demo_grown) 4172) = 96 \<and>
   valid_block demo_grown 4268 \<and> bt_free (mem demo_grown) 4268 \<and>
   sint (bt_size (mem demo_grown) 4268) = 16 \<and>
   free_list demo_grown [4268, 4300, 4140] \<and> bt_heap_last demo_grown = 4348 \<and>
   mem_brk demo_grown = mem_brk demo9"
  using realloc_grow_in_place[of demo9 "[4220, 4300, 4140]" 88 4176]
  by (simp add: heap_defs block_size_def demo9_def demo_grown_def eval_defs cong: let_weak_cong)

section \<open>Releasing a block\<close>

text \<open>Memory changes that leave the words of the lists and of a block alone.\<close>

lemma free_list_frame:
  assumes fl: "free_list s xs" and h: "bt_heap_start s' = bt_heap_start s"
    and fr: "\<And>x. x \<in> set (bt_heap_start s # xs @ [bt_heap_start s + 16]) \<Longrightarrow>
               load32 (mem s') (x + 4) = load32 (mem s) (x + 4) \<and>
               load32 (mem s') (x + 8) = load32 (mem s) (x + 8)"
  shows "free_list s' xs"
proof -
  let ?ns = "bt_heap_start s # xs @ [bt_heap_start s + 16]"
  from fl have d: "dll (bt_heap_start s) (mem s) ?ns"
    and z: "lifo_get_next (mem s) (bt_heap_start s + 16) = 0"
    and p: "0 < bt_heap_start s"
    by (simp_all add: free_list_def)
  have lk: "lifo_next (mem s') x = lifo_next (mem s) x" "lifo_prev (mem s') x = lifo_prev (mem s) x"
    if "x \<in> set ?ns" for x
    using fr[OF that] by (simp_all add: lifo_next_def lifo_prev_def lifo_get_next_def
        lifo_get_prev_def)
  have "successively (linked (mem s')) ?ns"
  proof (rule successively_linked_frame)
    show "successively (linked (mem s)) ?ns" using d by (simp add: dll_def)
    show "\<forall>a \<in> set (butlast ?ns). lifo_next (mem s') a = lifo_next (mem s) a"
      using lk(1) by (blast dest: in_set_butlastD)
    show "\<forall>b \<in> set (tl ?ns). lifo_prev (mem s') b = lifo_prev (mem s) b"
      using lk(2) by (blast dest: in_set_tl)
  qed
  then have "dll (bt_heap_start s) (mem s') ?ns" using d by (simp add: dll_def)
  moreover have "lifo_get_next (mem s') (bt_heap_start s + 16) = 0"
    using fr[of "bt_heap_start s + 16"] z by (simp add: lifo_get_next_def)
  ultimately show ?thesis using p by (simp add: free_list_def h)
qed

lemma valid_block_words:
  assumes vb: "valid_block s b" and h: "bt_heap_start s' = bt_heap_start s"
    and hd: "load32 (mem s') b = load32 (mem s) b"
    and ft: "load32 (mem s') (b + sint (bt_size (mem s) b) - 4) =
             load32 (mem s) (b + sint (bt_size (mem s) b) - 4)"
  shows "valid_block s' b" "bt_size (mem s') b = bt_size (mem s) b"
    "bt_free (mem s') b = bt_free (mem s) b" "bt_used (mem s') b = bt_used (mem s) b"
    "bt_next (mem s') b = bt_next (mem s) b"
proof -
  show sz: "bt_size (mem s') b = bt_size (mem s) b" by (simp add: bt_size_def hd)
  show "bt_free (mem s') b = bt_free (mem s) b" "bt_used (mem s') b = bt_used (mem s) b"
    by (simp_all add: bt_free_def bt_used_def hd)
  show "bt_next (mem s') b = bt_next (mem s) b" by (simp add: bt_next_def sz)
  show "valid_block s' b" using vb ft by (simp add: valid_block_def h sz hd bt_footer_def)
qed

lemma load32_bt_make_other:
  "b + 4 \<le> a \<or> a + 4 \<le> b \<Longrightarrow> load32 (bt_make m a sz f) b = load32 m b"
  unfolding bt_make_def by (rule load32_store32_other)

text \<open>
  \<^verbatim>\<open>free\<close> of a block in use: the tags of the block are written as free, then the
  block is merged with its free neighbours.
\<close>

lemma free_effect:
  assumes fl: "free_list s xs"
    and vc: "valid_block s cur" and nc: "cur \<notin> set xs" and ab: "bt_heap_start s + 16 < cur"
    and pl: "bt_prev s cur < cur"
    and hp: "\<not> bt_used (mem s) (bt_prev s cur) \<longrightarrow>
               valid_block s (bt_prev s cur) \<and> bt_prev s cur \<in> set xs \<and>
               bt_next (mem s) (bt_prev s cur) = cur"
    and hn: "bt_heap_last s \<noteq> cur \<and> \<not> bt_used (mem s) (bt_next (mem s) cur) \<longrightarrow>
               valid_block s (bt_next (mem s) cur) \<and> bt_next (mem s) cur \<in> set xs"
  shows "let prev = bt_prev s cur; next = bt_next (mem s) cur;
             P = bt_used (mem s) prev;
             N = (bt_heap_last s = cur \<or> bt_used (mem s) next);
             merged = (if P then cur else prev);
             s' = free s (bt_payload cur)
         in valid_block s' merged \<and> bt_free (mem s') merged \<and>
            sint (bt_size (mem s') merged) =
              sint (bt_size (mem s) cur) + (if P then 0 else sint (bt_size (mem s) prev)) +
              (if N then 0 else sint (bt_size (mem s) next)) \<and>
            free_list s'
              (merged # (if N then id else remove1 next) ((if P then id else remove1 prev) xs)) \<and>
            bt_heap_last s' =
              (if (\<not> N \<and> bt_heap_last s = next) \<or> (\<not> P \<and> bt_heap_last s = cur)
               then merged else bt_heap_last s) \<and>
            bt_heap_start s' = bt_heap_start s"
proof -
  define h where "h = bt_heap_start s"
  define c where "c = sint (bt_size (mem s) cur)"
  define pv where "pv = bt_prev s cur"
  define nx where "nx = bt_next (mem s) cur"
  define sz where "sz = (scast (bt_size (mem s) cur) :: size_t)"
  define m1 where "m1 = bt_make (mem s) cur sz FREE"
  define m2 where "m2 = bt_make m1 (cur + c - 4) sz FREE"
  define s3 where "s3 = s\<lparr>mem := m2\<rparr>"
  have nb: "node_ok h cur" and c16: "16 \<le> c" and cd: "16 dvd c" and cb: "cur + c < h + 2 ^ 31"
    using vc by (simp_all add: valid_block_def h_def c_def)
  have h0: "0 < h" using fl by (simp add: free_list_def h_def)
  have hc: "h \<le> cur" using nb by (simp add: node_ok_def)
  have usz: "uint sz = c" unfolding sz_def c_def using c16
    by (intro uint_scast_nonneg) (simp add: c_def)
  have c31: "c < 2 ^ 31" "c \<noteq> 0" using cb hc c16 by auto
  have tb: "tag_cell h cur" using nb by (rule tag_cells(1))
  have tfc: "tag_cell h (cur + c - 4)" using nb cd by (rule tag_cells(2))
  have tp: "tag_cell h (cur - 4)" using nb by (rule tag_cells(3))
  have l1: "load32 m1 cur = ucast sz OR flag_bits FREE"
    unfolding m1_def by (simp add: load32_bt_make[OF tb tb])
  have f1: "bt_footer m1 cur = cur + c - 4" using tag_decode(4)[OF l1 usz c31(1) cd c31(2)] .
  have l2: "load32 m2 cur = ucast sz OR flag_bits FREE"
    "load32 m2 (cur + c - 4) = ucast sz OR flag_bits FREE"
    unfolding m2_def using c16 l1
    by (simp_all add: load32_bt_make[OF tfc tb] load32_bt_make[OF tfc tfc])
  have other: "load32 m2 a = load32 (mem s) a" if "a + 4 \<le> cur \<or> cur + c \<le> a" for a
  proof -
    from that c16 have "a + 4 \<le> cur + c - 4 \<or> cur + c - 4 + 4 \<le> a" "a + 4 \<le> cur \<or> cur + 4 \<le> a"
      by auto
    then show ?thesis unfolding m2_def m1_def by (simp only: load32_bt_make_other)
  qed
  have fl1: "free_list (s\<lparr>mem := m1\<rparr>) xs"
    unfolding m1_def using free_list_bt_make[OF fl, where t = cur] tb by (simp add: h_def)
  have fl3: "free_list s3 xs"
    unfolding s3_def m2_def using free_list_bt_make[OF fl1, where t = "cur + c - 4"] tfc
    by (simp add: h_def)
  have bh: "bt_heap_start s3 = h" "mem s3 = m2" "bt_heap_last s3 = bt_heap_last s"
    "heap_start s3 = heap_start s"
    by (simp_all add: s3_def h_def)
  have v3: "valid_block s3 cur" "sint (bt_size m2 cur) = c" "bt_free m2 cur"
    using valid_block_tags[OF bh(1,2) nb l2 usz c16 cd cb] by simp_all
  have pv3: "bt_prev s3 cur = pv"
    using other[of "cur - 4"] by (simp add: bt_prev_def bh pv_def bt_size_def)
  have nxe: "nx = cur + c" unfolding nx_def c_def using vc by (rule valid_block_next)
  have nx3: "bt_next m2 cur = nx" using valid_block_next[OF v3(1)] v3(2) nxe by (simp add: bh)
  have pl4: "pv + 4 \<le> cur"
  proof (cases "bt_payload cur = bt_fromptr (heap_start s)")
    case True
    then have "pv = 0" by (simp add: pv_def bt_prev_def)
    with hc h0 ab show ?thesis by (simp add: h_def)
  next
    case False
    then have "pv = cur - 4 * (sint (bt_size (mem s) (cur - 4)) sdiv 4)"
      by (simp add: pv_def bt_prev_def)
    with pl show ?thesis unfolding pv_def[symmetric] by presburger
  qed
  have up: "bt_used m2 pv = bt_used (mem s) pv"
    using other[of pv] pl4 by (simp add: bt_used_def)
  have un: "bt_used m2 nx = bt_used (mem s) nx"
    using other[of nx] nxe by (simp add: bt_used_def)
  have hp3: "\<not> bt_used (mem s3) (bt_prev s3 cur) \<longrightarrow>
               valid_block s3 (bt_prev s3 cur) \<and> bt_prev s3 cur \<in> set xs \<and>
               bt_next (mem s3) (bt_prev s3 cur) = cur"
  proof
    assume "\<not> bt_used (mem s3) (bt_prev s3 cur)"
    then have np: "\<not> bt_used (mem s) pv" by (simp add: pv3 bh up)
    with hp have vp: "valid_block s pv" and mp: "pv \<in> set xs"
      and adj: "bt_next (mem s) pv = cur" by (simp_all add: pv_def)
    have pe: "pv + sint (bt_size (mem s) pv) = cur" using valid_block_next[OF vp] adj by simp
    have a1: "load32 (mem s3) pv = load32 (mem s) pv" using other[of pv] pl4 by (simp add: bh)
    have a2: "load32 (mem s3) (pv + sint (bt_size (mem s) pv) - 4) =
              load32 (mem s) (pv + sint (bt_size (mem s) pv) - 4)"
      using other[of "cur - 4"] pe by (simp add: bh)
    have b3: "bt_heap_start s3 = bt_heap_start s" by (simp add: bh h_def)
    note w = valid_block_words[OF vp b3 a1 a2]
    show "valid_block s3 (bt_prev s3 cur) \<and> bt_prev s3 cur \<in> set xs \<and>
          bt_next (mem s3) (bt_prev s3 cur) = cur"
      using w(1,5) mp adj by (simp add: pv3)
  qed
  have hn3: "bt_heap_last s3 \<noteq> cur \<and> \<not> bt_used (mem s3) (bt_next (mem s3) cur) \<longrightarrow>
               valid_block s3 (bt_next (mem s3) cur) \<and> bt_next (mem s3) cur \<in> set xs"
  proof
    assume a: "bt_heap_last s3 \<noteq> cur \<and> \<not> bt_used (mem s3) (bt_next (mem s3) cur)"
    then have "bt_heap_last s \<noteq> cur \<and> \<not> bt_used (mem s) nx" by (simp add: bh nx3 un)
    with hn have vn: "valid_block s nx" and mn: "nx \<in> set xs" by (simp_all add: nx_def)
    have n16: "16 \<le> sint (bt_size (mem s) nx)" using vn by (simp add: valid_block_def)
    have a1: "load32 (mem s3) nx = load32 (mem s) nx" using other[of nx] nxe by (simp add: bh)
    have a2: "load32 (mem s3) (nx + sint (bt_size (mem s) nx) - 4) =
              load32 (mem s) (nx + sint (bt_size (mem s) nx) - 4)"
      using other[of "nx + sint (bt_size (mem s) nx) - 4"] nxe n16 by (simp add: bh)
    have b3: "bt_heap_start s3 = bt_heap_start s" by (simp add: bh h_def)
    note w = valid_block_words[OF vn b3 a1 a2]
    show "valid_block s3 (bt_next (mem s3) cur) \<and> bt_next (mem s3) cur \<in> set xs"
      using w(1) mn by (simp add: bh nx3)
  qed
  have ab3: "bt_heap_start s3 + 16 < cur" using ab by (simp add: bh h_def)
  have fc3: "bt_free (mem s3) cur" using v3(3) by (simp add: bh)
  note ce = coalesce_effect[OF fl3 v3(1) fc3 nc ab3 hp3 hn3]
  have fr: "free s (bt_payload cur) = snd (coalesce s3 (bt_payload cur))"
    using hc h0
    unfolding free_def Let_def
    by (simp add: bt_payload_def bt_fromptr_def sz_def[symmetric] m1_def[symmetric]
        f1[unfolded bt_payload_def] m2_def[symmetric] s3_def[symmetric])
  have e7: "(if bt_used (mem s) pv then 0 else sint (bt_size m2 pv)) =
            (if bt_used (mem s) pv then 0 else sint (bt_size (mem s) pv))"
    using other[of pv] pl4 by (simp add: bt_size_def)
  have e8: "sint (bt_size m2 nx) = sint (bt_size (mem s) nx)"
    using other[of nx] nxe by (simp add: bt_size_def)
  have ce': "let P = bt_used (mem s) pv;
                 N = (bt_heap_last s = cur \<or> bt_used (mem s) nx);
                 merged = (if P then cur else pv);
                 s' = free s (bt_payload cur)
             in valid_block s' merged \<and> bt_free (mem s') merged \<and>
                sint (bt_size (mem s') merged) =
                  c + (if P then 0 else sint (bt_size (mem s) pv)) +
                  (if N then 0 else sint (bt_size (mem s) nx)) \<and>
                free_list s'
                  (merged # (if N then id else remove1 nx) ((if P then id else remove1 pv) xs)) \<and>
                bt_heap_last s' =
                  (if (\<not> N \<and> bt_heap_last s = nx) \<or> (\<not> P \<and> bt_heap_last s = cur)
                   then merged else bt_heap_last s) \<and>
                bt_heap_start s' = h"
    using ce unfolding Let_def fr pv3 bh nx3 up un v3(2) e7 e8 by blast
  then show ?thesis
    unfolding Let_def pv_def nx_def c_def h_def .
qed

section \<open>Relocating\<close>

lemma load32_bytes:
  "ucast (load32 m a) = m a" "ucast (drop_bit 8 (load32 m a)) = m (a + 1)"
  "ucast (drop_bit 16 (load32 m a)) = m (a + 2)" "ucast (drop_bit 24 (load32 m a)) = m (a + 3)"
  by (rule bit_eqI; auto simp: load32_def bit_simps dest: bit_imp_le_length)+

lemma memcpy_8:
  "memcpy m dst src 8 =
     store32 (store32 m dst (load32 m src)) (dst + 4) (load32 m (src + 4))"
proof
  fix a
  have u: "uint (8 :: size_t) = 8" by simp
  consider "a < dst \<or> dst + 8 \<le> a" | "a = dst" | "a = dst + 1" | "a = dst + 2" | "a = dst + 3"
    | "a = dst + 4" | "a = dst + 5" | "a = dst + 6" | "a = dst + 7"
    by linarith
  then show "memcpy m dst src 8 a =
     store32 (store32 m dst (load32 m src)) (dst + 4) (load32 m (src + 4)) a"
    unfolding memcpy_def u by cases (auto simp: store32_def load32_bytes add.commute)
qed

lemma load32_memcpy:
  "a + 4 \<le> dst \<or> dst + uint n \<le> a \<Longrightarrow> load32 (memcpy m dst src n) a = load32 m a"
  by (auto simp: load32_def memcpy_def)

lemma uint_realloc_asize_le:
  "8 < sz \<Longrightarrow> uint (realloc_asize sz) \<le> 16 * ((uint sz + 23) div 16)"
proof -
  assume "8 < sz"
  have e: "sz + 8 + 16 - 1 = sz + 23" by simp
  have "(uint sz + 23) mod 2 ^ 64 \<le> uint sz + 23"
    by (rule zmod_le_nonneg_dividend) simp
  then have "uint (sz + 23) \<le> uint sz + 23"
    by (simp add: uint_word_ariths)
  then have "uint (sz + 23) div 16 \<le> (uint sz + 23) div 16"
    by (rule zdiv_mono1) simp
  then have d: "uint ((sz + 23) div 16) \<le> (uint sz + 23) div 16"
    by (simp add: uint_div)
  have "(16 * uint ((sz + 23) div 16)) mod 2 ^ 64 \<le> 16 * uint ((sz + 23) div 16)"
    by (rule zmod_le_nonneg_dividend) simp
  then have "uint (16 * ((sz + 23) div 16)) \<le> 16 * uint ((sz + 23) div 16)"
    by (simp add: uint_word_ariths)
  with d have "uint (16 * ((sz + 23) div 16)) \<le> 16 * ((uint sz + 23) div 16)" by linarith
  with \<open>8 < sz\<close> show ?thesis
    unfolding realloc_asize_def ALIGNMENT_def e by (auto simp: not_le)
qed

lemma relocate_copies_old_payload:
  assumes v: "16 \<le> sint (bt_size m cur)" "16 dvd sint (bt_size m cur)"
    and lt: "block_size m cur < realloc_asize sz"
  shows "uint (block_size m cur - 8) = min (sint (bt_size m cur) - 8) (uint sz)"
proof -
  let ?old = "sint (bt_size m cur)"
  have u: "uint (block_size m cur) = ?old"
    using v(1) by (simp add: block_size_def uint_scast_nonneg)
  have ge8: "(8 :: size_t) \<le> block_size m cur"
    using u v(1) by (simp add: word_le_def)
  have sub: "uint (block_size m cur - 8) = ?old - 8"
    using ge8 u by (simp add: uint_minus_simple_alt)
  have lt': "?old < uint (realloc_asize sz)"
    using lt u by (simp add: word_less_def)
  have big: "8 < sz"
  proof (rule ccontr)
    assume "\<not> 8 < sz"
    then have "realloc_asize sz = 16" by (simp add: realloc_asize_def not_less)
    with lt' v(1) show False by simp
  qed
  from uint_realloc_asize_le[OF big] lt' have "?old < 16 * ((uint sz + 23) div 16)" by linarith
  with v(2) have "?old - 8 \<le> uint sz" by presburger
  with sub show ?thesis by simp
qed

lemma malloc_growth_failure:
  assumes "sz \<noteq> 0" "find_fit s (malloc_asize sz) = Some NULL"
    and "mem_max_addr s < mem_brk s + uint ((malloc_asize sz + ALIGNMENT - 1) AND - ALIGNMENT)"
  shows "malloc s sz = Some (NULL, s)"
  using assms by (simp add: malloc_def extend_heap_def mem_sbrk_def Let_def)

lemma uint_old_payload:
  assumes "16 \<le> sint (bt_size m cur)"
  shows "uint (block_size m cur - 8) = sint (bt_size m cur) - 8"
proof -
  have u: "uint (block_size m cur) = sint (bt_size m cur)"
    using assms by (simp add: block_size_def uint_scast_nonneg)
  then have "(8 :: size_t) \<le> block_size m cur" using assms by (simp add: word_le_def)
  then show ?thesis using u by (simp add: uint_minus_simple_alt)
qed

text \<open>
  The copy into the payload of the fresh block \<open>nb\<close> followed by \<^verbatim>\<open>free\<close> of the old
  block \<open>cur\<close>, in a heap where the fresh block overlaps neither the old block, nor its
  neighbours, nor an entry of the free list.
\<close>

lemma relocate_release:
  fixes n :: size_t
  assumes fl: "free_list s1 xs"
    and vc: "valid_block s1 cur" and nc: "cur \<notin> set xs" and ab: "bt_heap_start s1 + 16 < cur"
    and vn: "valid_block s1 nb" and abn: "bt_heap_start s1 + 16 < nb"
    and cnt: "uint n + 8 \<le> sint (bt_size (mem s1) nb)"
    and li: "\<forall>x \<in> set xs. x < nb \<or> nb + sint (bt_size (mem s1) nb) \<le> x"
    and oc: "cur + sint (bt_size (mem s1) cur) \<le> nb \<or> nb + sint (bt_size (mem s1) nb) \<le> cur"
    and pl: "bt_prev s1 cur < cur"
    and po: "bt_prev s1 cur \<le> nb \<or> nb + sint (bt_size (mem s1) nb) \<le> bt_prev s1 cur"
    and hp: "\<not> bt_used (mem s1) (bt_prev s1 cur) \<longrightarrow>
               valid_block s1 (bt_prev s1 cur) \<and> bt_prev s1 cur \<in> set xs \<and>
               bt_next (mem s1) (bt_prev s1 cur) = cur"
    and hn: "bt_heap_last s1 \<noteq> cur \<and> \<not> bt_used (mem s1) (bt_next (mem s1) cur) \<longrightarrow>
               valid_block s1 (bt_next (mem s1) cur) \<and> bt_next (mem s1) cur \<in> set xs \<and>
               (bt_next (mem s1) cur + sint (bt_size (mem s1) (bt_next (mem s1) cur)) \<le> nb \<or>
                nb + sint (bt_size (mem s1) nb) \<le> bt_next (mem s1) cur)"
  shows "let prev = bt_prev s1 cur; next = bt_next (mem s1) cur;
             P = bt_used (mem s1) prev;
             N = (bt_heap_last s1 = cur \<or> bt_used (mem s1) next);
             merged = (if P then cur else prev);
             s' = free (s1\<lparr>mem := memcpy (mem s1) (bt_payload nb) (bt_payload cur) n\<rparr>)
                    (bt_payload cur)
         in valid_block s' merged \<and> bt_free (mem s') merged \<and>
            sint (bt_size (mem s') merged) =
              sint (bt_size (mem s1) cur) + (if P then 0 else sint (bt_size (mem s1) prev)) +
              (if N then 0 else sint (bt_size (mem s1) next)) \<and>
            merged \<le> cur \<and>
            cur + sint (bt_size (mem s1) cur) \<le> merged + sint (bt_size (mem s') merged) \<and>
            free_list s'
              (merged # (if N then id else remove1 next) ((if P then id else remove1 prev) xs)) \<and>
            bt_heap_last s' =
              (if (\<not> N \<and> bt_heap_last s1 = next) \<or> (\<not> P \<and> bt_heap_last s1 = cur)
               then merged else bt_heap_last s1) \<and>
            bt_heap_start s' = bt_heap_start s1"
proof -
  define h where "h = bt_heap_start s1"
  define c where "c = sint (bt_size (mem s1) cur)"
  define k where "k = sint (bt_size (mem s1) nb)"
  define pv where "pv = bt_prev s1 cur"
  define nx where "nx = bt_next (mem s1) cur"
  define m2 where "m2 = memcpy (mem s1) (bt_payload nb) (bt_payload cur) n"
  define s2 where "s2 = s1\<lparr>mem := m2\<rparr>"
  have bh: "bt_heap_start s2 = h" "mem s2 = m2" "bt_heap_last s2 = bt_heap_last s1"
    "heap_start s2 = heap_start s1"
    by (simp_all add: s2_def h_def)
  have b2: "bt_heap_start s2 = bt_heap_start s1" by (simp add: s2_def)
  have nb: "node_ok h cur" and c16: "16 \<le> c"
    using vc by (simp_all add: valid_block_def h_def c_def)
  have nn: "node_ok h nb" using vn by (simp add: valid_block_def h_def)
  have w: "load32 m2 a = load32 (mem s1) a" if "a \<le> nb \<or> nb + k - 4 \<le> a" for a
  proof -
    from that cnt have "a + 4 \<le> bt_payload nb \<or> bt_payload nb + uint n \<le> a"
      by (auto simp: bt_payload_def k_def)
    then show ?thesis unfolding m2_def by (rule load32_memcpy)
  qed
  have nodes: "x + 16 \<le> nb \<or> nb + k \<le> x"
    if xin: "x \<in> set (h # xs @ [h + 16])" for x
  proof -
    have n0: "node_ok h h" "node_ok h (h + 16)"
      using free_list_nodes(1,2)[OF fl] by (simp_all add: h_def)
    consider "x = h" | "x = h + 16" | "x \<in> set xs" using xin by auto
    then show ?thesis
    proof cases
      case 1
      then show ?thesis using abn by (simp add: h_def)
    next
      case 2
      have "nb \<noteq> h + 16" using abn by (simp add: h_def)
      from node_apart[OF nn n0(2) this] abn 2 show ?thesis by (simp add: h_def)
    next
      case 3
      have nx: "node_ok h x" using free_list_nodes(3)[OF fl 3] by (simp add: h_def)
      from li 3 have "x < nb \<or> nb + k \<le> x" by (simp add: k_def)
      then show ?thesis
      proof
        assume l: "x < nb"
        then have "nb \<noteq> x" by simp
        from node_apart[OF nn nx this] l show ?thesis by simp
      qed simp
    qed
  qed
  have fl2: "free_list s2 xs"
  proof (rule free_list_frame[OF fl b2])
    fix x assume "x \<in> set (bt_heap_start s1 # xs @ [bt_heap_start s1 + 16])"
    then have "x + 16 \<le> nb \<or> nb + k \<le> x" using nodes[of x] by (simp add: h_def)
    then have "x + 4 \<le> nb \<or> nb + k - 4 \<le> x + 4" "x + 8 \<le> nb \<or> nb + k - 4 \<le> x + 8"
      by auto
    then show "load32 (mem s2) (x + 4) = load32 (mem s1) (x + 4) \<and>
               load32 (mem s2) (x + 8) = load32 (mem s1) (x + 8)"
      using w[of "x + 4"] w[of "x + 8"] by (simp add: bh)
  qed
  have oc': "cur + c \<le> nb \<or> nb + k \<le> cur" using oc by (simp add: c_def k_def)
  have wc: "load32 (mem s2) cur = load32 (mem s1) cur"
    "load32 (mem s2) (cur + sint (bt_size (mem s1) cur) - 4) =
     load32 (mem s1) (cur + sint (bt_size (mem s1) cur) - 4)"
    using w[of cur] w[of "cur + c - 4"] oc' c16 by (auto simp: bh c_def)
  note v2 = valid_block_words[OF vc b2 wc]
  have nxe: "nx = cur + c" unfolding nx_def c_def using vc by (rule valid_block_next)
  have pv2: "bt_prev s2 cur = pv"
  proof -
    have "load32 m2 (cur - 4) = load32 (mem s1) (cur - 4)" using w[of "cur - 4"] oc' c16 by auto
    then show ?thesis by (simp add: bt_prev_def bh pv_def bt_size_def)
  qed
  have nx2: "bt_next m2 cur = nx" using v2(5) by (simp add: bh nx_def)
  have wp: "load32 m2 pv = load32 (mem s1) pv" using w[of pv] po by (auto simp: pv_def k_def)
  have wn: "load32 m2 nx = load32 (mem s1) nx" using w[of nx] oc' nxe c16 by auto
  have up: "bt_used m2 pv = bt_used (mem s1) pv" by (simp add: bt_used_def wp)
  have un: "bt_used m2 nx = bt_used (mem s1) nx" by (simp add: bt_used_def wn)
  have hp2: "\<not> bt_used (mem s2) (bt_prev s2 cur) \<longrightarrow>
               valid_block s2 (bt_prev s2 cur) \<and> bt_prev s2 cur \<in> set xs \<and>
               bt_next (mem s2) (bt_prev s2 cur) = cur"
  proof
    assume "\<not> bt_used (mem s2) (bt_prev s2 cur)"
    then have "\<not> bt_used (mem s1) pv" by (simp add: pv2 bh up)
    with hp have vp: "valid_block s1 pv" and mp: "pv \<in> set xs"
      and adj: "bt_next (mem s1) pv = cur" by (simp_all add: pv_def)
    have pe: "pv + sint (bt_size (mem s1) pv) = cur" using valid_block_next[OF vp] adj by simp
    have a1: "load32 (mem s2) pv = load32 (mem s1) pv" using wp by (simp add: bh)
    have a2: "load32 (mem s2) (pv + sint (bt_size (mem s1) pv) - 4) =
              load32 (mem s1) (pv + sint (bt_size (mem s1) pv) - 4)"
      using w[of "cur - 4"] oc' c16 pe by (auto simp: bh)
    note vw = valid_block_words[OF vp b2 a1 a2]
    show "valid_block s2 (bt_prev s2 cur) \<and> bt_prev s2 cur \<in> set xs \<and>
          bt_next (mem s2) (bt_prev s2 cur) = cur"
      using vw(1,5) mp adj by (simp add: pv2)
  qed
  have hn2: "bt_heap_last s2 \<noteq> cur \<and> \<not> bt_used (mem s2) (bt_next (mem s2) cur) \<longrightarrow>
               valid_block s2 (bt_next (mem s2) cur) \<and> bt_next (mem s2) cur \<in> set xs"
  proof
    assume "bt_heap_last s2 \<noteq> cur \<and> \<not> bt_used (mem s2) (bt_next (mem s2) cur)"
    then have "bt_heap_last s1 \<noteq> cur \<and> \<not> bt_used (mem s1) nx" by (simp add: bh nx2 un)
    with hn have vx: "valid_block s1 nx" and mn: "nx \<in> set xs"
      and on: "nx + sint (bt_size (mem s1) nx) \<le> nb \<or> nb + k \<le> nx"
      by (simp_all add: nx_def k_def)
    have n16: "16 \<le> sint (bt_size (mem s1) nx)" using vx by (simp add: valid_block_def)
    have a1: "load32 (mem s2) nx = load32 (mem s1) nx" using wn by (simp add: bh)
    have a2: "load32 (mem s2) (nx + sint (bt_size (mem s1) nx) - 4) =
              load32 (mem s1) (nx + sint (bt_size (mem s1) nx) - 4)"
      using w[of "nx + sint (bt_size (mem s1) nx) - 4"] on n16 by (auto simp: bh)
    note vw = valid_block_words[OF vx b2 a1 a2]
    show "valid_block s2 (bt_next (mem s2) cur) \<and> bt_next (mem s2) cur \<in> set xs"
      using vw(1) mn by (simp add: bh nx2)
  qed
  have ab2: "bt_heap_start s2 + 16 < cur" using ab by (simp add: b2)
  have pl2: "bt_prev s2 cur < cur" using pl by (simp add: pv2 pv_def)
  note fe = free_effect[OF fl2 v2(1) nc ab2 pl2 hp2 hn2]
  have e6: "sint (bt_size m2 cur) = c" using v2(2) by (simp add: bh c_def)
  have e7: "sint (bt_size m2 pv) = sint (bt_size (mem s1) pv)" by (simp add: bt_size_def wp)
  have e8: "sint (bt_size m2 nx) = sint (bt_size (mem s1) nx)" by (simp add: bt_size_def wn)
  define P where "P = bt_used (mem s1) pv"
  define N where "N = (bt_heap_last s1 = cur \<or> bt_used (mem s1) nx)"
  define merged where "merged = (if P then cur else pv)"
  define s' where "s' = free s2 (bt_payload cur)"
  define total where "total = c + (if P then 0 else sint (bt_size (mem s1) pv)) +
                       (if N then 0 else sint (bt_size (mem s1) nx))"
  have main: "valid_block s' merged \<and> bt_free (mem s') merged \<and>
      sint (bt_size (mem s') merged) = total \<and>
      free_list s' (merged # (if N then id else remove1 nx) ((if P then id else remove1 pv) xs)) \<and>
      bt_heap_last s' =
        (if (\<not> N \<and> bt_heap_last s1 = nx) \<or> (\<not> P \<and> bt_heap_last s1 = cur)
         then merged else bt_heap_last s1) \<and>
      bt_heap_start s' = h"
    using fe unfolding Let_def pv2 bh nx2 up un e6 e7 e8
      P_def[symmetric] N_def[symmetric] merged_def[symmetric] s'_def[symmetric]
      total_def[symmetric] .
  have pn: "0 \<le> (if P then 0 else sint (bt_size (mem s1) pv))"
    "\<not> P \<Longrightarrow> pv + sint (bt_size (mem s1) pv) = cur"
  proof -
    show "\<not> P \<Longrightarrow> pv + sint (bt_size (mem s1) pv) = cur"
      using hp valid_block_next[of s1 pv] by (simp add: P_def pv_def)
    show "0 \<le> (if P then 0 else sint (bt_size (mem s1) pv))"
      using hp by (auto simp: P_def pv_def valid_block_def)
  qed
  have nn0: "0 \<le> (if N then 0 else sint (bt_size (mem s1) nx))"
    using hn by (auto simp: N_def nx_def valid_block_def)
  have cover: "merged \<le> cur \<and> cur + c \<le> merged + total"
  proof (cases P)
    case True
    then show ?thesis using nn0 by (simp add: merged_def total_def)
  next
    case False
    then show ?thesis using nn0 pn(2) hp
      by (auto simp: merged_def total_def P_def pv_def valid_block_def)
  qed
  have "valid_block s' merged \<and> bt_free (mem s') merged \<and>
      sint (bt_size (mem s') merged) = total \<and>
      merged \<le> cur \<and> cur + c \<le> merged + sint (bt_size (mem s') merged) \<and>
      free_list s' (merged # (if N then id else remove1 nx) ((if P then id else remove1 pv) xs)) \<and>
      bt_heap_last s' =
        (if (\<not> N \<and> bt_heap_last s1 = nx) \<or> (\<not> P \<and> bt_heap_last s1 = cur)
         then merged else bt_heap_last s1) \<and>
      bt_heap_start s' = h"
    using main cover by simp
  then show ?thesis
    unfolding Let_def total_def merged_def P_def N_def s'_def s2_def m2_def pv_def nx_def c_def
      h_def .
qed

lemma demo_moved_step: "realloc demo9 4352 24 = Some (4144, demo_moved)"
  by (simp add: demo9_def demo_moved_def eval_defs memcpy_8 cong: let_weak_cong)

text \<open>
  Claim C8. Let the size be nonzero, \<open>old_ptr\<close> not \<^verbatim>\<open>NULL\<close>, the size of its block a
  multiple of 16 and at least 16, the needed size larger, and growing into the
  successor not possible. Then \<^verbatim>\<open>realloc\<close> is \<^verbatim>\<open>malloc\<close> of the size, followed, when that
  returns a block, by the copy of the old block's size less 8 bytes from the old
  payload to the new one, and by \<^verbatim>\<open>free\<close> of \<open>old_ptr\<close>; it returns the new payload.
  That number of bytes is the lesser of the old payload size and the requested size.
  When \<^verbatim>\<open>malloc\<close> returns \<^verbatim>\<open>NULL\<close> so does \<^verbatim>\<open>realloc\<close>, in the state that \<^verbatim>\<open>malloc\<close> left;
  and when \<^verbatim>\<open>malloc\<close> fails because no free block fits and the arena cannot grow,
  that state is the one \<^verbatim>\<open>realloc\<close> was called in.

  The old block is released: let \<^verbatim>\<open>malloc\<close> return the block \<open>nb\<close> in the state \<open>sm\<close>,
  where the free list holds the blocks \<open>xs\<close>, the old block \<open>cur\<close> is a well-formed
  block that is not on the list, its predecessor by address lies before it, \<open>nb\<close> is a
  well-formed block at least as large as the old one that overlaps neither \<open>cur\<close>, nor
  the header of its predecessor, nor a block of the list, and a neighbour of \<open>cur\<close>
  that is not in use is a well-formed block on the list (the predecessor ending where
  \<open>cur\<close> starts). Then in the state that \<^verbatim>\<open>realloc\<close> returns the old block is part
  of a well-formed free block, the first of the free list: \<open>cur\<close> merged with its
  neighbours that were not in use, which leave the list; the topmost-block pointer
  moves to the merged block when the old topmost block is part of it.
\<close>

theorem realloc_relocate:
  assumes "sz \<noteq> 0" and "old_ptr \<noteq> NULL"
    and "16 \<le> sint (bt_size (mem s) (bt_fromptr old_ptr))"
    and "16 dvd sint (bt_size (mem s) (bt_fromptr old_ptr))"
    and "block_size (mem s) (bt_fromptr old_ptr) < realloc_asize sz"
    and "\<not> (fst (realloc_next s (bt_fromptr old_ptr)) \<noteq> NULL \<and>
            realloc_asize sz \<le> snd (realloc_next s (bt_fromptr old_ptr)))"
  shows "(case malloc s sz of
            None \<Rightarrow> realloc s old_ptr sz = None
          | Some (new_ptr, s1) \<Rightarrow>
              if new_ptr = NULL then realloc s old_ptr sz = Some (NULL, s1)
              else realloc s old_ptr sz =
                Some (new_ptr,
                  free (s1\<lparr>mem := memcpy (mem s1) new_ptr old_ptr
                                     (block_size (mem s) (bt_fromptr old_ptr) - 8)\<rparr>) old_ptr) \<and>
                (\<forall>i. 0 \<le> i \<and> i < uint (block_size (mem s) (bt_fromptr old_ptr) - 8) \<longrightarrow>
                   memcpy (mem s1) new_ptr old_ptr
                     (block_size (mem s) (bt_fromptr old_ptr) - 8) (new_ptr + i) =
                   mem s1 (old_ptr + i))) \<and>
         uint (block_size (mem s) (bt_fromptr old_ptr) - 8) =
           min (sint (bt_size (mem s) (bt_fromptr old_ptr)) - 8) (uint sz) \<and>
         (find_fit s (malloc_asize sz) = Some NULL \<and>
          mem_max_addr s < mem_brk s + uint ((malloc_asize sz + ALIGNMENT - 1) AND - ALIGNMENT) \<longrightarrow>
            realloc s old_ptr sz = Some (NULL, s)) \<and>
         (malloc s sz = Some (new_ptr, sm) \<and> new_ptr \<noteq> NULL \<and>
          (let cur = bt_fromptr old_ptr; nb = bt_fromptr new_ptr;
               prev = bt_prev sm cur; next = bt_next (mem sm) cur;
               k = sint (bt_size (mem sm) nb)
           in free_list sm xs \<and>
              valid_block sm cur \<and> cur \<notin> set xs \<and> bt_heap_start sm + 16 < cur \<and>
              valid_block sm nb \<and> bt_heap_start sm + 16 < nb \<and>
              sint (bt_size (mem s) cur) \<le> k \<and>
              (\<forall>x \<in> set xs. x < nb \<or> nb + k \<le> x) \<and>
              (cur + sint (bt_size (mem sm) cur) \<le> nb \<or> nb + k \<le> cur) \<and>
              prev < cur \<and> (prev \<le> nb \<or> nb + k \<le> prev) \<and>
              (\<not> bt_used (mem sm) prev \<longrightarrow>
                 valid_block sm prev \<and> prev \<in> set xs \<and> bt_next (mem sm) prev = cur) \<and>
              (bt_heap_last sm \<noteq> cur \<and> \<not> bt_used (mem sm) next \<longrightarrow>
                 valid_block sm next \<and> next \<in> set xs \<and>
                 (next + sint (bt_size (mem sm) next) \<le> nb \<or> nb + k \<le> next))) \<longrightarrow>
          (\<exists>s'. realloc s old_ptr sz = Some (new_ptr, s') \<and>
              (let cur = bt_fromptr old_ptr;
                   prev = bt_prev sm cur; next = bt_next (mem sm) cur;
                   P = bt_used (mem sm) prev;
                   N = (bt_heap_last sm = cur \<or> bt_used (mem sm) next);
                   merged = (if P then cur else prev)
               in valid_block s' merged \<and> bt_free (mem s') merged \<and>
                  sint (bt_size (mem s') merged) =
                    sint (bt_size (mem sm) cur) +
                    (if P then 0 else sint (bt_size (mem sm) prev)) +
                    (if N then 0 else sint (bt_size (mem sm) next)) \<and>
                  merged \<le> cur \<and>
                  cur + sint (bt_size (mem sm) cur) \<le> merged + sint (bt_size (mem s') merged) \<and>
                  free_list s'
                    (merged # (if N then id else remove1 next)
                       ((if P then id else remove1 prev) xs)) \<and>
                  bt_heap_last s' =
                    (if (\<not> N \<and> bt_heap_last sm = next) \<or> (\<not> P \<and> bt_heap_last sm = cur)
                     then merged else bt_heap_last sm) \<and>
                  bt_heap_start s' = bt_heap_start sm)))"
proof (intro conjI impI)
  obtain nb ns where rn: "realloc_next s (bt_fromptr old_ptr) = (nb, ns)" by force
  have ne: "realloc_asize sz \<noteq> block_size (mem s) (bt_fromptr old_ptr)"
    and nl: "\<not> realloc_asize sz < block_size (mem s) (bt_fromptr old_ptr)"
    using assms(5) by auto
  have ng: "\<not> (nb \<noteq> NULL \<and> realloc_asize sz \<le> ns)" using assms(6) rn by simp
  have r: "realloc s old_ptr sz =
      (case malloc s sz of
         None \<Rightarrow> None
       | Some (new_ptr, s1) \<Rightarrow>
           if new_ptr = NULL then Some (NULL, s1)
           else Some (new_ptr,
             free (s1\<lparr>mem := memcpy (mem s1) new_ptr old_ptr
                                (block_size (mem s) (bt_fromptr old_ptr) - 8)\<rparr>) old_ptr))"
  proof (cases "nb = NULL")
    case True
    then show ?thesis using assms(1,2) ne nl rn
      by (auto simp: realloc_def Let_def block_size_def split: option.splits)
  next
    case False
    with ng have "\<not> realloc_asize sz \<le> ns" by simp
    then show ?thesis using assms(1,2) ne nl rn
      by (auto simp: realloc_def Let_def block_size_def split: option.splits)
  qed
  show "case malloc s sz of
            None \<Rightarrow> realloc s old_ptr sz = None
          | Some (new_ptr, s1) \<Rightarrow>
              if new_ptr = NULL then realloc s old_ptr sz = Some (NULL, s1)
              else realloc s old_ptr sz =
                Some (new_ptr,
                  free (s1\<lparr>mem := memcpy (mem s1) new_ptr old_ptr
                                     (block_size (mem s) (bt_fromptr old_ptr) - 8)\<rparr>) old_ptr) \<and>
                (\<forall>i. 0 \<le> i \<and> i < uint (block_size (mem s) (bt_fromptr old_ptr) - 8) \<longrightarrow>
                   memcpy (mem s1) new_ptr old_ptr
                     (block_size (mem s) (bt_fromptr old_ptr) - 8) (new_ptr + i) =
                   mem s1 (old_ptr + i))"
    unfolding r by (auto simp: memcpy_def split: option.splits)
  show "uint (block_size (mem s) (bt_fromptr old_ptr) - 8) =
           min (sint (bt_size (mem s) (bt_fromptr old_ptr)) - 8) (uint sz)"
    using assms(3,4,5) by (rule relocate_copies_old_payload)
next
  assume f: "find_fit s (malloc_asize sz) = Some NULL \<and>
          mem_max_addr s < mem_brk s + uint ((malloc_asize sz + ALIGNMENT - 1) AND - ALIGNMENT)"
  obtain nb ns where rn: "realloc_next s (bt_fromptr old_ptr) = (nb, ns)" by force
  have "malloc s sz = Some (NULL, s)"
    using assms(1) f by (intro malloc_growth_failure) auto
  moreover have "\<not> (nb \<noteq> NULL \<and> realloc_asize sz \<le> ns)" using assms(6) rn by simp
  moreover have "realloc_asize sz \<noteq> block_size (mem s) (bt_fromptr old_ptr)"
    "\<not> realloc_asize sz < block_size (mem s) (bt_fromptr old_ptr)"
    using assms(5) by auto
  ultimately show "realloc s old_ptr sz = Some (NULL, s)"
    using assms(1,2) rn by (cases "nb = NULL") (simp_all add: realloc_def Let_def block_size_def)
next
  assume a: "malloc s sz = Some (new_ptr, sm) \<and> new_ptr \<noteq> NULL \<and>
          (let cur = bt_fromptr old_ptr; nb = bt_fromptr new_ptr;
               prev = bt_prev sm cur; next = bt_next (mem sm) cur;
               k = sint (bt_size (mem sm) nb)
           in free_list sm xs \<and>
              valid_block sm cur \<and> cur \<notin> set xs \<and> bt_heap_start sm + 16 < cur \<and>
              valid_block sm nb \<and> bt_heap_start sm + 16 < nb \<and>
              sint (bt_size (mem s) cur) \<le> k \<and>
              (\<forall>x \<in> set xs. x < nb \<or> nb + k \<le> x) \<and>
              (cur + sint (bt_size (mem sm) cur) \<le> nb \<or> nb + k \<le> cur) \<and>
              prev < cur \<and> (prev \<le> nb \<or> nb + k \<le> prev) \<and>
              (\<not> bt_used (mem sm) prev \<longrightarrow>
                 valid_block sm prev \<and> prev \<in> set xs \<and> bt_next (mem sm) prev = cur) \<and>
              (bt_heap_last sm \<noteq> cur \<and> \<not> bt_used (mem sm) next \<longrightarrow>
                 valid_block sm next \<and> next \<in> set xs \<and>
                 (next + sint (bt_size (mem sm) next) \<le> nb \<or> nb + k \<le> next)))"
  define cur where "cur = bt_fromptr old_ptr"
  define nb where "nb = bt_fromptr new_ptr"
  define n where "n = block_size (mem s) cur - 8"
  have pc: "bt_payload cur = old_ptr" "bt_payload nb = new_ptr"
    by (simp_all add: cur_def nb_def bt_payload_def bt_fromptr_def)
  have un: "uint n = sint (bt_size (mem s) cur) - 8"
    unfolding n_def using assms(3) by (intro uint_old_payload) (simp add: cur_def)
  from a have m: "malloc s sz = Some (new_ptr, sm)" and nn: "new_ptr \<noteq> NULL" by simp_all
  from a have wf: "free_list sm xs" "valid_block sm cur" "cur \<notin> set xs"
    "bt_heap_start sm + 16 < cur" "valid_block sm nb" "bt_heap_start sm + 16 < nb"
    "sint (bt_size (mem s) cur) \<le> sint (bt_size (mem sm) nb)"
    "\<forall>x \<in> set xs. x < nb \<or> nb + sint (bt_size (mem sm) nb) \<le> x"
    "cur + sint (bt_size (mem sm) cur) \<le> nb \<or> nb + sint (bt_size (mem sm) nb) \<le> cur"
    "bt_prev sm cur < cur"
    "bt_prev sm cur \<le> nb \<or> nb + sint (bt_size (mem sm) nb) \<le> bt_prev sm cur"
    "\<not> bt_used (mem sm) (bt_prev sm cur) \<longrightarrow>
       valid_block sm (bt_prev sm cur) \<and> bt_prev sm cur \<in> set xs \<and>
       bt_next (mem sm) (bt_prev sm cur) = cur"
    "bt_heap_last sm \<noteq> cur \<and> \<not> bt_used (mem sm) (bt_next (mem sm) cur) \<longrightarrow>
       valid_block sm (bt_next (mem sm) cur) \<and> bt_next (mem sm) cur \<in> set xs \<and>
       (bt_next (mem sm) cur + sint (bt_size (mem sm) (bt_next (mem sm) cur)) \<le> nb \<or>
        nb + sint (bt_size (mem sm) nb) \<le> bt_next (mem sm) cur)"
    unfolding Let_def cur_def nb_def by simp_all
  have cnt: "uint n + 8 \<le> sint (bt_size (mem sm) nb)" using un wf(7) by simp
  note rr = relocate_release[OF wf(1-6) cnt wf(8-13), unfolded pc]
  obtain nb' ns where rn: "realloc_next s (bt_fromptr old_ptr) = (nb', ns)" by force
  have ne: "realloc_asize sz \<noteq> block_size (mem s) (bt_fromptr old_ptr)"
    and nl: "\<not> realloc_asize sz < block_size (mem s) (bt_fromptr old_ptr)"
    using assms(5) by auto
  have ng: "\<not> (nb' \<noteq> NULL \<and> realloc_asize sz \<le> ns)" using assms(6) rn by simp
  have r: "realloc s old_ptr sz =
      Some (new_ptr, free (sm\<lparr>mem := memcpy (mem sm) new_ptr old_ptr n\<rparr>) old_ptr)"
  proof (cases "nb' = NULL")
    case True
    then show ?thesis using assms(1,2) ne nl rn m nn
      by (simp add: realloc_def Let_def block_size_def n_def cur_def)
  next
    case False
    with ng have "\<not> realloc_asize sz \<le> ns" by simp
    then show ?thesis using assms(1,2) ne nl rn m nn
      by (simp add: realloc_def Let_def block_size_def n_def cur_def)
  qed
  show "\<exists>s'. realloc s old_ptr sz = Some (new_ptr, s') \<and>
              (let cur = bt_fromptr old_ptr;
                   prev = bt_prev sm cur; next = bt_next (mem sm) cur;
                   P = bt_used (mem sm) prev;
                   N = (bt_heap_last sm = cur \<or> bt_used (mem sm) next);
                   merged = (if P then cur else prev)
               in valid_block s' merged \<and> bt_free (mem s') merged \<and>
                  sint (bt_size (mem s') merged) =
                    sint (bt_size (mem sm) cur) +
                    (if P then 0 else sint (bt_size (mem sm) prev)) +
                    (if N then 0 else sint (bt_size (mem sm) next)) \<and>
                  merged \<le> cur \<and>
                  cur + sint (bt_size (mem sm) cur) \<le> merged + sint (bt_size (mem s') merged) \<and>
                  free_list s'
                    (merged # (if N then id else remove1 next)
                       ((if P then id else remove1 prev) xs)) \<and>
                  bt_heap_last s' =
                    (if (\<not> N \<and> bt_heap_last sm = next) \<or> (\<not> P \<and> bt_heap_last sm = cur)
                     then merged else bt_heap_last sm) \<and>
                  bt_heap_start s' = bt_heap_start sm)"
    unfolding r using rr unfolding Let_def cur_def by simp
qed

text \<open>
  In \<open>demo9\<close> the topmost block \<open>g3\<close> of 16 bytes at 4348 cannot grow in place.
  \<^verbatim>\<open>realloc(g3, 24)\<close> allocates the free block \<open>a\<close> at 4140, copies the 8 bytes of
  payload, and frees \<open>g3\<close>, which is merged with the free block \<open>c\<close> before it into a
  free block of 64 bytes at 4300, first in the free list and topmost.
  \<^verbatim>\<open>realloc(g3, 100)\<close> finds no block and no room in the arena, and changes nothing.
\<close>

theorem realloc_relocate_witness:
  "fst (realloc_next demo9 (bt_fromptr 4352)) = NULL \<and>
   block_size (mem demo9) (bt_fromptr 4352) = 16 \<and> realloc_asize 24 = 32 \<and>
   malloc demo9 24 = Some (4144, demo_alloc) \<and>
   free_list demo_alloc [4220, 4300] \<and> valid_block demo_alloc 4348 \<and>
   valid_block demo_alloc 4140 \<and> bt_used (mem demo_alloc) 4140 \<and>
   bt_prev demo_alloc 4348 = 4300 \<and> bt_free (mem demo_alloc) 4300 \<and>
   bt_heap_last demo_alloc = 4348 \<and>
   realloc demo9 4352 24 = Some (4144, demo_moved) \<and>
   load32 (mem demo_moved) 4144 = load32 (mem demo9) 4352 \<and>
   load32 (mem demo_moved) 4148 = load32 (mem demo9) 4356 \<and>
   valid_block demo_moved 4300 \<and> bt_free (mem demo_moved) 4300 \<and>
   sint (bt_size (mem demo_moved) 4300) = 48 + 16 \<and>
   free_list demo_moved [4300, 4220] \<and> bt_heap_last demo_moved = 4300 \<and>
   realloc_asize 100 = 112 \<and> find_fit demo9 (malloc_asize 100) = Some NULL \<and>
   mem_max_addr demo9 < mem_brk demo9 + uint ((malloc_asize 100 + ALIGNMENT - 1) AND - ALIGNMENT) \<and>
   realloc demo9 4352 100 = Some (NULL, demo9)"
proof -
  have h: "fst (realloc_next demo9 (bt_fromptr 4352)) = NULL"
    "block_size (mem demo9) (bt_fromptr 4352) = 16"
    "sint (bt_size (mem demo9) (bt_fromptr 4352)) = 16"
    by (simp_all add: demo9_def block_size_def eval_defs cong: let_weak_cong)
  have a: "realloc_asize 24 = 32" "realloc_asize 100 = 112"
    by (simp_all add: realloc_asize_def ALIGNMENT_def)
  have f: "find_fit demo9 (malloc_asize 100) = Some NULL"
    "mem_max_addr demo9 < mem_brk demo9 + uint ((malloc_asize 100 + ALIGNMENT - 1) AND - ALIGNMENT)"
    by (simp_all add: demo9_def eval_defs cong: let_weak_cong)
  have w: "free_list demo_alloc [4220, 4300]" "valid_block demo_alloc 4348"
    "valid_block demo_alloc 4140" "bt_used (mem demo_alloc) 4140"
    "bt_prev demo_alloc 4348 = 4300" "bt_free (mem demo_alloc) 4300"
    "bt_heap_last demo_alloc = 4348" "valid_block demo_alloc 4300"
    "bt_next (mem demo_alloc) 4300 = 4348" "bt_heap_start demo_alloc = 4108"
    "sint (bt_size (mem demo_alloc) 4140) = 32" "sint (bt_size (mem demo_alloc) 4348) = 16"
    "sint (bt_size (mem demo_alloc) 4300) = 48"
    by (simp_all add: heap_defs demo_alloc_def eval_defs cong: let_weak_cong)
  have c: "load32 (mem demo_moved) 4144 = load32 (mem demo9) 4352"
    "load32 (mem demo_moved) 4148 = load32 (mem demo9) 4356"
    by (simp_all add: demo9_def demo_moved_def eval_defs)
  have fu: "\<not> bt_used (mem demo_alloc) 4300" using w(6) by (simp add: bt_free_iff)
  have 1: "\<exists>s'. realloc demo9 4352 24 = Some (4144, s') \<and>
             valid_block s' 4300 \<and> bt_free (mem s') 4300 \<and>
             sint (bt_size (mem s') 4300) = 48 + 16 \<and>
             free_list s' [4300, 4220] \<and> bt_heap_last s' = 4300"
    using realloc_relocate[where sz = 24 and old_ptr = 4352 and s = demo9 and new_ptr = 4144
        and sm = demo_alloc and xs = "[4220, 4300]"] h a w fu demo_alloc_step
    by (auto simp: bt_fromptr_def)
  have 2: "realloc demo9 4352 100 = Some (NULL, demo9)"
    using realloc_relocate[where sz = 100 and old_ptr = 4352 and s = demo9] h a f by simp
  show ?thesis using h a f w c 1 2 demo_alloc_step demo_moved_step by simp
qed

end
